theory Spec2Isabelle
  imports Main
begin

section \<open>JavaScript values\<close>

text \<open>
  Documents, file contents and identifiers are JavaScript values that survive
  \<^verbatim>\<open>JSON.stringify\<close>: null, booleans, numbers (integers here), strings, arrays and
  plain objects. An object is the list of its own enumerable properties.
\<close>

datatype json =
    JNull
  | JBool bool
  | JNum int
  | JStr string
  | JArr "json list"
  | JObj "(string \<times> json) list"

datatype js_error =
    ENOENT
  | EACCES
  | SyntaxError
  | TypeError
  | AlreadyExists string string
  | BackupFailed js_error
  | RestoreFailed js_error

subsection \<open>Coercion to string and to boolean\<close>

definition digit_char :: "nat \<Rightarrow> char" where
  "digit_char d = ''0123456789'' ! (d mod 10)"

fun string_of_nat :: "nat \<Rightarrow> string" where
  "string_of_nat n =
     (if n < 10 then [digit_char n] else string_of_nat (n div 10) @ [digit_char (n mod 10)])"

declare string_of_nat.simps [simp del]

definition string_of_int :: "int \<Rightarrow> string" where
  "string_of_int i =
     (if i < 0 then CHR ''-'' # string_of_nat (nat (- i)) else string_of_nat (nat i))"

fun join_comma :: "string list \<Rightarrow> string" where
  "join_comma [] = []"
| "join_comma [x] = x"
| "join_comma (x # y # ys) = x @ '','' @ join_comma (y # ys)"

text \<open>
  \<^verbatim>\<open>String(v)\<close> and the template literal \<^verbatim>\<open>`${v}`\<close>. An integer prints in
  decimal, as JavaScript prints the integers below \<open>10^21\<close>; an array joins its
  elements with commas, null elements being empty.
\<close>

fun js_String :: "json \<Rightarrow> string" where
  "js_String JNull = ''null''"
| "js_String (JBool b) = (if b then ''true'' else ''false'')"
| "js_String (JNum i) = string_of_int i"
| "js_String (JStr s) = s"
| "js_String (JArr xs) = join_comma (map (\<lambda>x. if x = JNull then [] else js_String x) xs)"
| "js_String (JObj kvs) = ''[object Object]''"

text \<open>The truth value of a JavaScript value in a condition.\<close>

fun truthy :: "json \<Rightarrow> bool" where
  "truthy JNull = False"
| "truthy (JBool b) = b"
| "truthy (JNum i) = (i \<noteq> 0)"
| "truthy (JStr s) = (s \<noteq> [])"
| "truthy (JArr xs) = True"
| "truthy (JObj kvs) = True"

subsection \<open>The built-in Map: an association list in insertion order\<close>

definition m_has :: "('k \<times> 'v) list \<Rightarrow> 'k \<Rightarrow> bool" where
  "m_has m k = (map_of m k \<noteq> None)"

definition m_get :: "('k \<times> 'v) list \<Rightarrow> 'k \<Rightarrow> 'v option" where
  "m_get m k = map_of m k"

text \<open>\<^verbatim>\<open>set\<close> keeps the position of a key that is present and appends a new one.\<close>

fun m_set :: "'k \<Rightarrow> 'v \<Rightarrow> ('k \<times> 'v) list \<Rightarrow> ('k \<times> 'v) list" where
  "m_set k v [] = [(k, v)]"
| "m_set k v (p # ps) = (if fst p = k then (k, v) # ps else p # m_set k v ps)"

definition m_delete :: "'k \<Rightarrow> ('k \<times> 'v) list \<Rightarrow> ('k \<times> 'v) list" where
  "m_delete k m = filter (\<lambda>p. fst p \<noteq> k) m"

definition m_keys :: "('k \<times> 'v) list \<Rightarrow> 'k list" where
  "m_keys m = map fst m"

definition m_size :: "('k \<times> 'v) list \<Rightarrow> nat" where
  "m_size m = length m"

subsection \<open>Own properties of an object and their enumeration order\<close>

definition is_digit :: "char \<Rightarrow> bool" where
  "is_digit c = (c \<in> set ''0123456789'')"

definition digit_val :: "char \<Rightarrow> int" where
  "digit_val c = of_char c - 48"

definition digits_value :: "string \<Rightarrow> int" where
  "digits_value ds = foldl (\<lambda>n c. 10 * n + digit_val c) 0 ds"

text \<open>
  An array index is the canonical decimal string of an integer below \<open>2^32 - 1\<close>.
  Enumerating an object lists such keys first, in ascending numeric order, then
  the other keys in the order of their creation.
\<close>

definition is_array_index :: "string \<Rightarrow> bool" where
  "is_array_index k =
     (k \<noteq> [] \<and> list_all is_digit k \<and> (k = ''0'' \<or> hd k \<noteq> CHR ''0'')
      \<and> digits_value k < 4294967295)"

text \<open>
  Creating properties one after the other (\<^verbatim>\<open>CreateDataProperty\<close>): a key that is
  already there keeps its place and takes the new value.
\<close>

definition create_all :: "(string \<times> 'a) list \<Rightarrow> (string \<times> 'a) list \<Rightarrow> (string \<times> 'a) list" where
  "create_all props kvs = fold (\<lambda>p. m_set (fst p) (snd p)) kvs props"

definition own_entries :: "(string \<times> 'a) list \<Rightarrow> (string \<times> 'a) list" where
  "own_entries kvs =
     (let d = create_all [] kvs
      in sort_key (\<lambda>p. digits_value (fst p)) (filter (\<lambda>p. is_array_index (fst p)) d)
         @ filter (\<lambda>p. \<not> is_array_index (fst p)) d)"

definition indexed :: "json list \<Rightarrow> (string \<times> json) list" where
  "indexed xs = map (\<lambda>p. (string_of_nat (fst p), snd p)) (enumerate 0 xs)"

text \<open>\<^verbatim>\<open>Object.entries(v)\<close>: a type error on null, nothing for a boolean or a number.\<close>

fun Object_entries :: "json \<Rightarrow> js_error + (string \<times> json) list" where
  "Object_entries JNull = Inl TypeError"
| "Object_entries (JBool b) = Inr []"
| "Object_entries (JNum i) = Inr []"
| "Object_entries (JStr s) = Inr (indexed (map (\<lambda>c. JStr [c]) s))"
| "Object_entries (JArr xs) = Inr (indexed xs)"
| "Object_entries (JObj kvs) = Inr (own_entries kvs)"

definition Object_fromEntries :: "(string \<times> json) list \<Rightarrow> json" where
  "Object_fromEntries es = JObj (own_entries es)"

text \<open>
  The spread \<^verbatim>\<open>...v\<close> in an object literal copies the own enumerable properties
  of \<open>v\<close>; null contributes nothing.
\<close>

fun spread :: "json \<Rightarrow> (string \<times> json) list" where
  "spread JNull = []"
| "spread (JBool b) = []"
| "spread (JNum i) = []"
| "spread (JStr s) = indexed (map (\<lambda>c. JStr [c]) s)"
| "spread (JArr xs) = indexed xs"
| "spread (JObj kvs) = own_entries kvs"

text \<open>The object literal \<^verbatim>\<open>{ id, ...doc }\<close>.\<close>

definition with_id :: "json \<Rightarrow> json \<Rightarrow> json" where
  "with_id i doc = JObj (own_entries ((''id'', i) # spread doc))"

text \<open>Reading a property: \<open>None\<close> is \<^verbatim>\<open>undefined\<close>; reading from null throws.\<close>

fun get_prop :: "json \<Rightarrow> string \<Rightarrow> js_error + json option" where
  "get_prop JNull k = Inl TypeError"
| "get_prop (JObj kvs) k = Inr (map_of (create_all [] kvs) k)"
| "get_prop v k = Inr None"


section \<open>The store and its files\<close>

text \<open>
  A file holds the JSON value its text denotes, or text that is not JSON.
  Writing \<^verbatim>\<open>JSON.stringify(v)\<close> stores \<open>Json v\<close>; \<^verbatim>\<open>JSON.parse\<close> gives it back.
\<close>

datatype content = Json json | Garbage

text \<open>
  The fields of the \<^verbatim>\<open>JSLiteDB\<close> instance that the document operations use,
  together with the part of the world they act on: the regular files by path, the
  paths on which reading and writing are refused, and the reading of the clock.
  \<open>folderPath\<close> is the resolved path the constructor computes. Directories are
  implicit, so \<^verbatim>\<open>mkdir\<close> has nothing to do.
\<close>

record db =
  folderPath :: string
  maxMemoryItems :: int
  collectionFiles :: "(string \<times> string) list"
  collectionData :: "(string \<times> (string \<times> json) list) list"
  cache :: "(string \<times> json) list"
  isInitialized :: bool
  files :: "(string \<times> content) list"
  denied :: "string list"
  clock :: int

subsection \<open>File system calls\<close>

text \<open>
  \<^verbatim>\<open>path.join\<close> on POSIX paths. The arguments that are not empty are joined
  with a slash and the result is normalized: empty segments and \<^verbatim>\<open>.\<close> segments
  disappear, and a \<^verbatim>\<open>..\<close> segment removes the segment before it; where there is
  none to remove it disappears in an absolute path and stays in a relative one.
\<close>

fun split_path :: "string \<Rightarrow> string list" where
  "split_path [] = [[]]"
| "split_path (c # cs) =
     (if c = CHR ''/'' then [] # split_path cs
      else (case split_path cs of [] \<Rightarrow> [[c]] | seg # segs \<Rightarrow> (c # seg) # segs))"

fun join_slash :: "string list \<Rightarrow> string" where
  "join_slash [] = []"
| "join_slash [x] = x"
| "join_slash (x # y # ys) = x @ ''/'' @ join_slash (y # ys)"

definition normalize_step :: "bool \<Rightarrow> string \<Rightarrow> string list \<Rightarrow> string list" where
  "normalize_step allowAboveRoot seg res =
     (if seg = [] \<or> seg = ''.'' then res
      else if seg = ''..''
      then (if res \<noteq> [] \<and> last res \<noteq> ''..'' then butlast res
            else if allowAboveRoot then res @ [''..''] else res)
      else res @ [seg])"

definition normalizeString :: "string \<Rightarrow> bool \<Rightarrow> string" where
  "normalizeString p allowAboveRoot =
     join_slash (fold (normalize_step allowAboveRoot) (split_path p) [])"

definition path_normalize :: "string \<Rightarrow> string" where
  "path_normalize p =
     (if p = [] then ''.''
      else (let isAbsolute = (hd p = CHR ''/'');
                trailingSeparator = (last p = CHR ''/'');
                body = normalizeString p (\<not> isAbsolute)
            in if body = []
               then (if isAbsolute then ''/'' else if trailingSeparator then ''./'' else ''.'')
               else (if isAbsolute then ''/'' else []) @ body
                    @ (if trailingSeparator then ''/'' else [])))"

definition path_join :: "string \<Rightarrow> string \<Rightarrow> string" where
  "path_join dir file =
     path_normalize (if dir = [] then file else if file = [] then dir else dir @ ''/'' @ file)"

definition readFile :: "string \<Rightarrow> db \<Rightarrow> js_error + content" where
  "readFile p s =
     (if p \<in> set (denied s) then Inl EACCES
      else case m_get (files s) p of None \<Rightarrow> Inl ENOENT | Some c \<Rightarrow> Inr c)"

definition writeFile :: "string \<Rightarrow> content \<Rightarrow> db \<Rightarrow> (js_error + unit) \<times> db" where
  "writeFile p c s =
     (if p \<in> set (denied s) then (Inl EACCES, s)
      else (Inr (), s\<lparr>files := m_set p c (files s)\<rparr>))"

definition unlink :: "string \<Rightarrow> db \<Rightarrow> (js_error + unit) \<times> db" where
  "unlink p s =
     (if m_has (files s) p then (Inr (), s\<lparr>files := m_delete p (files s)\<rparr>)
      else (Inl ENOENT, s))"

text \<open>
  \<^verbatim>\<open>readdir\<close> lists the names of the files that lie in the directory itself:
  the last segment of every path that is the directory joined with that segment.
\<close>

definition readdir :: "string \<Rightarrow> db \<Rightarrow> string list" where
  "readdir dir s =
     map (\<lambda>p. last (split_path p))
       (filter (\<lambda>p. last (split_path p) \<noteq> [] \<and> path_join dir (last (split_path p)) = p)
          (m_keys (files s)))"

definition JSON_parse :: "content \<Rightarrow> js_error + json" where
  "JSON_parse c = (case c of Json v \<Rightarrow> Inr v | Garbage \<Rightarrow> Inl SyntaxError)"

text \<open>
  The idiom that loads a collection file: read it, parse it, and build a Map
  from \<^verbatim>\<open>Object.entries\<close> of the parsed value.
\<close>

definition read_data_map :: "string \<Rightarrow> db \<Rightarrow> js_error + (string \<times> json) list" where
  "read_data_map filePath s =
     (case readFile filePath s of
        Inl e \<Rightarrow> Inl e
      | Inr c \<Rightarrow>
          (case JSON_parse c of
             Inl e \<Rightarrow> Inl e
           | Inr v \<Rightarrow>
               (case Object_entries v of
                  Inl e \<Rightarrow> Inl e
                | Inr es \<Rightarrow> Inr (create_all [] es))))"

subsection \<open>Internal methods of the store\<close>

definition indexFilePath :: "db \<Rightarrow> string" where
  "indexFilePath s = path_join (folderPath s) ''.index.json''"

definition getCollectionFilePath :: "db \<Rightarrow> string \<Rightarrow> string" where
  "getCollectionFilePath s collectionName = path_join (folderPath s) (collectionName @ ''.json'')"

definition saveCollectionIndex :: "db \<Rightarrow> (js_error + unit) \<times> db" where
  "saveCollectionIndex s =
     writeFile (indexFilePath s)
       (Json (JObj [(''version'', JNum 2), (''timestamp'', JNum (clock s)),
                    (''collections'', JArr (map JStr (m_keys (collectionFiles s))))])) s"

definition saveCollection :: "string \<Rightarrow> db \<Rightarrow> (js_error + unit) \<times> db" where
  "saveCollection collectionName s =
     (case m_get (collectionData s) collectionName of
        None \<Rightarrow> (Inr (), s)
      | Some data \<Rightarrow>
          (let filePath = getCollectionFilePath s collectionName
           in case writeFile filePath (Json (Object_fromEntries data)) s of
                (Inl e, s') \<Rightarrow> (Inl e, s')
              | (Inr u, s') \<Rightarrow>
                  (Inr (), s'\<lparr>collectionFiles := m_set collectionName filePath (collectionFiles s')\<rparr>)))"

definition loadCollection :: "string \<Rightarrow> db \<Rightarrow> (js_error + (string \<times> json) list) \<times> db" where
  "loadCollection collectionName s =
     (let filePath = getCollectionFilePath s collectionName
      in case read_data_map filePath s of
           Inr dataMap \<Rightarrow>
             (Inr dataMap,
              s\<lparr>collectionData := m_set collectionName dataMap (collectionData s),
                collectionFiles := m_set collectionName filePath (collectionFiles s)\<rparr>)
         | Inl e \<Rightarrow>
             (if e = ENOENT
              then (Inr [], s\<lparr>collectionData := m_set collectionName [] (collectionData s)\<rparr>)
              else (Inl e, s)))"

text \<open>
  The values a \<^verbatim>\<open>for ... of\<close> loop draws from the manifest's \<^verbatim>\<open>collections\<close>:
  the elements of an array, the characters of a string, a type error otherwise.
\<close>

fun iterate :: "json option \<Rightarrow> js_error + json list" where
  "iterate (Some (JArr xs)) = Inr xs"
| "iterate (Some (JStr str)) = Inr (map (\<lambda>c. JStr [c]) str)"
| "iterate v = Inl TypeError"

text \<open>
  One round of the loop of \<^verbatim>\<open>_loadCollectionIndex\<close>. A listed name is used through
  its string form; a file that cannot be loaded takes the name out of the file map.
\<close>

definition loadIndexed :: "json \<Rightarrow> db \<Rightarrow> db" where
  "loadIndexed entry s =
     (let collectionName = js_String entry;
          filePath = getCollectionFilePath s collectionName;
          s1 = s\<lparr>collectionFiles := m_set collectionName filePath (collectionFiles s)\<rparr>
      in case read_data_map filePath s1 of
           Inr dataMap \<Rightarrow> s1\<lparr>collectionData := m_set collectionName dataMap (collectionData s1)\<rparr>
         | Inl e \<Rightarrow> s1\<lparr>collectionFiles := m_delete collectionName (collectionFiles s1)\<rparr>)"

definition loadCollectionIndex :: "db \<Rightarrow> (js_error + unit) \<times> db" where
  "loadCollectionIndex s =
     (case readFile (indexFilePath s) s of
        Inl e \<Rightarrow> (Inl e, s)
      | Inr c \<Rightarrow>
          (case JSON_parse c of
             Inl e \<Rightarrow> (Inl e, s)
           | Inr indexData \<Rightarrow>
               (case get_prop indexData ''collections'' of
                  Inl e \<Rightarrow> (Inl e, s)
                | Inr names \<Rightarrow>
                    (case iterate names of
                       Inl e \<Rightarrow> (Inl e, s)
                     | Inr entries \<Rightarrow> (Inr (), fold loadIndexed entries s)))))"

definition endsWith :: "string \<Rightarrow> string \<Rightarrow> bool" where
  "endsWith str suffix = (length suffix \<le> length str \<and> drop (length str - length suffix) str = suffix)"

definition startsWith :: "string \<Rightarrow> string \<Rightarrow> bool" where
  "startsWith str pre = (take (length pre) str = pre)"

text \<open>One round of the loop of \<^verbatim>\<open>_scanCollections\<close>, for one directory entry.\<close>

definition scanFile :: "string \<Rightarrow> db \<Rightarrow> db" where
  "scanFile file s =
     (if endsWith file ''.json'' \<and> \<not> startsWith file ''.''
      then (let collectionName = take (length file - 5) file;
                filePath = path_join (folderPath s) file;
                s1 = s\<lparr>collectionFiles := m_set collectionName filePath (collectionFiles s)\<rparr>
            in case read_data_map filePath s1 of
                 Inr dataMap \<Rightarrow> s1\<lparr>collectionData := m_set collectionName dataMap (collectionData s1)\<rparr>
               | Inl e \<Rightarrow> s1)
      else s)"

definition scanCollections :: "db \<Rightarrow> db" where
  "scanCollections s =
     (let s1 = s\<lparr>collectionFiles := [], collectionData := []\<rparr>
      in fold scanFile (readdir (folderPath s1) s1) s1)"

text \<open>
  The lazy bootstrap: nothing when the flag is set; otherwise load the manifest,
  falling back to a scan of the folder and a fresh manifest, and set the flag.
\<close>

definition ensureInitialized :: "db \<Rightarrow> (js_error + unit) \<times> db" where
  "ensureInitialized s =
     (if isInitialized s then (Inr (), s)
      else case loadCollectionIndex s of
             (Inr u, s1) \<Rightarrow> (Inr (), s1\<lparr>isInitialized := True\<rparr>)
           | (Inl e, s1) \<Rightarrow>
               (case saveCollectionIndex (scanCollections s1) of
                  (Inl e', s2) \<Rightarrow> (Inl e', s2)
                | (Inr u, s2) \<Rightarrow> (Inr (), s2\<lparr>isInitialized := True\<rparr>)))"

text \<open>
  The cache evicts its oldest key when it is full, then stores the entry.
  Deleting the first key of an empty cache deletes nothing.
\<close>

definition addToCache :: "string \<Rightarrow> json \<Rightarrow> db \<Rightarrow> db" where
  "addToCache key v s =
     (let c = (if maxMemoryItems s \<le> int (m_size (cache s))
               then (case m_keys (cache s) of [] \<Rightarrow> cache s | firstKey # ks \<Rightarrow> m_delete firstKey (cache s))
               else cache s)
      in s\<lparr>cache := m_set key v c\<rparr>)"


section \<open>The \<^verbatim>\<open>Collection\<close> class\<close>

text \<open>
  Every operation is modelled run to completion, in the order of the source's
  statements, and returns its result or the error thrown together with the state
  it leaves. The write mutex that wraps the mutating operations is modelled on
  its own in the last section.
\<close>

text \<open>The collection's Map, loaded on demand when the store does not hold it yet.\<close>

definition get_or_load :: "string \<Rightarrow> db \<Rightarrow> (js_error + (string \<times> json) list) \<times> db" where
  "get_or_load name s =
     (case m_get (collectionData s) name of
        Some data \<Rightarrow> (Inr data, s)
      | None \<Rightarrow> loadCollection name s)"

text \<open>
  \<^verbatim>\<open>insert(documentOrId, document)\<close>. Without a second argument the first one is
  the document and the identifier is generated; \<open>generated\<close> is what
  \<^verbatim>\<open>_generateId()\<close> returns at this call.
\<close>

definition Collection_insert ::
  "string \<Rightarrow> json \<Rightarrow> json option \<Rightarrow> string \<Rightarrow> db \<Rightarrow> (js_error + json) \<times> db" where
  "Collection_insert name documentOrId document generated s0 =
     (case ensureInitialized s0 of
        (Inl e, s) \<Rightarrow> (Inl e, s)
      | (Inr u, s) \<Rightarrow>
          (let i = (case document of None \<Rightarrow> JStr generated | Some d \<Rightarrow> documentOrId);
               doc = (case document of None \<Rightarrow> documentOrId | Some d \<Rightarrow> d);
               stringId = js_String i
           in case get_or_load name s of
                (Inl e, s1) \<Rightarrow> (Inl e, s1)
              | (Inr data, s1) \<Rightarrow>
                  (if m_has data stringId then (Inl (AlreadyExists stringId name), s1)
                   else
                     (let s2 = s1\<lparr>collectionData :=
                                   m_set name (m_set stringId doc data) (collectionData s1)\<rparr>;
                          s3 = addToCache (name @ '':'' @ js_String i) doc s2
                      in case saveCollection name s3 of
                           (Inl e, s4) \<Rightarrow> (Inl e, s4)
                         | (Inr u, s4) \<Rightarrow>
                             (case saveCollectionIndex s4 of
                                (Inl e, s5) \<Rightarrow> (Inl e, s5)
                              | (Inr u, s5) \<Rightarrow> (Inr (with_id i doc), s5))))))"

definition Collection_update ::
  "string \<Rightarrow> json \<Rightarrow> json \<Rightarrow> db \<Rightarrow> (js_error + json) \<times> db" where
  "Collection_update name i document s0 =
     (case ensureInitialized s0 of
        (Inl e, s) \<Rightarrow> (Inl e, s)
      | (Inr u, s) \<Rightarrow>
          (let stringId = js_String i
           in case get_or_load name s of
                (Inl e, s1) \<Rightarrow> (Inl e, s1)
              | (Inr data, s1) \<Rightarrow>
                  (let s2 = s1\<lparr>collectionData :=
                                m_set name (m_set stringId document data) (collectionData s1)\<rparr>;
                       s3 = addToCache (name @ '':'' @ js_String i) document s2
                   in case saveCollection name s3 of
                        (Inl e, s4) \<Rightarrow> (Inl e, s4)
                      | (Inr u, s4) \<Rightarrow>
                          (case saveCollectionIndex s4 of
                             (Inl e, s5) \<Rightarrow> (Inl e, s5)
                           | (Inr u, s5) \<Rightarrow> (Inr document, s5)))))"

text \<open>\<^verbatim>\<open>findById\<close> answers \<open>JNull\<close> (JavaScript's null) when it finds nothing.\<close>

definition Collection_findById :: "string \<Rightarrow> json \<Rightarrow> db \<Rightarrow> (js_error + json) \<times> db" where
  "Collection_findById name i s0 =
     (case ensureInitialized s0 of
        (Inl e, s) \<Rightarrow> (Inl e, s)
      | (Inr u, s) \<Rightarrow>
          (let cacheKey = name @ '':'' @ js_String i
           in case m_get (cache s) cacheKey of
                Some cached \<Rightarrow> (Inr cached, s)
              | None \<Rightarrow>
                  (case m_get (collectionData s) name of
                     None \<Rightarrow> (Inr JNull, s)
                   | Some data \<Rightarrow>
                       (case m_get data (js_String i) of
                          None \<Rightarrow> (Inr JNull, s)
                        | Some document \<Rightarrow>
                            (if \<not> truthy document then (Inr JNull, s)
                             else (Inr document, addToCache cacheKey document s))))))"

text \<open>
  The \<^verbatim>\<open>filter\<close> option: absent (or falsy), a function of the document and its
  identifier, or a truthy value that is not a function.
\<close>

datatype filter_arg = NoFilter | FilterFn "json \<Rightarrow> string \<Rightarrow> bool" | NotAFunction

record find_options =
  opt_limit :: "int option"
  opt_skip :: "int option"
  opt_filter :: filter_arg

fun passes :: "filter_arg \<Rightarrow> json \<Rightarrow> string \<Rightarrow> bool" where
  "passes NoFilter document i = True"
| "passes (FilterFn f) document i = f document i"
| "passes NotAFunction document i = False"

text \<open>
  The loop of \<^verbatim>\<open>find\<close> over the entries that remain, with the counter
  \<open>skipped\<close> and the list \<open>results\<close> built so far. An absent limit and the limit 0
  are falsy and never break the loop.
\<close>

fun find_loop ::
  "int option \<Rightarrow> int \<Rightarrow> filter_arg \<Rightarrow> (string \<times> json) list \<Rightarrow> int \<Rightarrow> json list \<Rightarrow> json list" where
  "find_loop limit skip flt [] skipped results = results"
| "find_loop limit skip flt ((i, document) # rest) skipped results =
     (if skipped < skip then find_loop limit skip flt rest (skipped + 1) results
      else if (case limit of None \<Rightarrow> False | Some l \<Rightarrow> l \<noteq> 0 \<and> l \<le> int (length results))
      then results
      else if passes flt document i
      then find_loop limit skip flt rest skipped (results @ [with_id (JStr i) document])
      else find_loop limit skip flt rest skipped results)"

definition Collection_find :: "string \<Rightarrow> find_options \<Rightarrow> db \<Rightarrow> (js_error + json list) \<times> db" where
  "Collection_find name options s0 =
     (case ensureInitialized s0 of
        (Inl e, s) \<Rightarrow> (Inl e, s)
      | (Inr u, s) \<Rightarrow>
          (let skip = (case opt_skip options of None \<Rightarrow> 0 | Some k \<Rightarrow> k)
           in case m_get (collectionData s) name of
                None \<Rightarrow> (Inr [], s)
              | Some data \<Rightarrow>
                  (Inr (find_loop (opt_limit options) skip (opt_filter options) data 0 []), s)))"

definition Collection_findOne :: "string \<Rightarrow> filter_arg \<Rightarrow> db \<Rightarrow> (js_error + json) \<times> db" where
  "Collection_findOne name flt s0 =
     (case Collection_find name \<lparr>opt_limit = Some 1, opt_skip = None, opt_filter = flt\<rparr> s0 of
        (Inl e, s) \<Rightarrow> (Inl e, s)
      | (Inr results, s) \<Rightarrow>
          (case results of
             [] \<Rightarrow> (Inr JNull, s)
           | r # rs \<Rightarrow> (Inr (if truthy r then r else JNull), s)))"

definition Collection_delete :: "string \<Rightarrow> json \<Rightarrow> db \<Rightarrow> (js_error + bool) \<times> db" where
  "Collection_delete name i s0 =
     (case ensureInitialized s0 of
        (Inl e, s) \<Rightarrow> (Inl e, s)
      | (Inr u, s) \<Rightarrow>
          (case m_get (collectionData s) name of
             None \<Rightarrow> (Inr False, s)
           | Some data \<Rightarrow>
               (if \<not> m_has data (js_String i) then (Inr False, s)
                else
                  (let data' = m_delete (js_String i) data;
                       s1 = s\<lparr>collectionData := m_set name data' (collectionData s)\<rparr>;
                       s2 = s1\<lparr>cache := m_delete (name @ '':'' @ js_String i) (cache s1)\<rparr>
                   in case saveCollection name s2 of
                        (Inl e, s3) \<Rightarrow> (Inl e, s3)
                      | (Inr u, s3) \<Rightarrow>
                          (let s6 =
                             (if m_size data' = 0
                              then (let s4 = s3\<lparr>collectionData := m_delete name (collectionData s3)\<rparr>;
                                        s5 = (case m_get (collectionFiles s4) name of
                                                None \<Rightarrow> s4
                                              | Some filePath \<Rightarrow>
                                                  (if filePath \<noteq> [] then snd (unlink filePath s4) else s4))
                                    in s5\<lparr>collectionFiles := m_delete name (collectionFiles s5)\<rparr>)
                              else s3)
                           in case saveCollectionIndex s6 of
                                (Inl e, s7) \<Rightarrow> (Inl e, s7)
                              | (Inr u, s7) \<Rightarrow> (Inr True, s7))))))"

text \<open>
  The argument of \<^verbatim>\<open>count\<close>: nothing, a filter function, or an options object
  with its \<^verbatim>\<open>filter\<close> property.
\<close>

datatype count_arg = CountAll | CountFn "json \<Rightarrow> string \<Rightarrow> bool" | CountOptions filter_arg

fun count_filter :: "count_arg \<Rightarrow> (json \<Rightarrow> string \<Rightarrow> bool) option" where
  "count_filter CountAll = None"
| "count_filter (CountFn f) = Some f"
| "count_filter (CountOptions (FilterFn f)) = Some f"
| "count_filter (CountOptions flt) = None"

definition Collection_count :: "string \<Rightarrow> count_arg \<Rightarrow> db \<Rightarrow> (js_error + nat) \<times> db" where
  "Collection_count name options s0 =
     (case ensureInitialized s0 of
        (Inl e, s) \<Rightarrow> (Inl e, s)
      | (Inr u, s) \<Rightarrow>
          (case m_get (collectionData s) name of
             None \<Rightarrow> (Inr 0, s)
           | Some data \<Rightarrow>
               (case count_filter options of
                  None \<Rightarrow> (Inr (m_size data), s)
                | Some f \<Rightarrow> (Inr (length (filter (\<lambda>p. f (snd p) (fst p)) data)), s))))"

text \<open>
  \<^verbatim>\<open>stream\<close> is a generator; the model gives the finite sequence it yields when
  it is drawn to its end.
\<close>

definition Collection_stream :: "string \<Rightarrow> db \<Rightarrow> (js_error + json list) \<times> db" where
  "Collection_stream name s0 =
     (case ensureInitialized s0 of
        (Inl e, s) \<Rightarrow> (Inl e, s)
      | (Inr u, s) \<Rightarrow>
          (case m_get (collectionData s) name of
             None \<Rightarrow> (Inr [], s)
           | Some data \<Rightarrow> (Inr (map (\<lambda>p. with_id (JStr (fst p)) (snd p)) data), s)))"


section \<open>The public methods of the store\<close>

definition JSLiteDB_collections :: "db \<Rightarrow> (js_error + string list) \<times> db" where
  "JSLiteDB_collections s0 =
     (case ensureInitialized s0 of
        (Inl e, s) \<Rightarrow> (Inl e, s)
      | (Inr u, s) \<Rightarrow> (Inr (m_keys (collectionData s)), s))"

text \<open>
  \<^verbatim>\<open>clear\<close> unlinks every collection file and the manifest, ignoring the files
  that are not there, and empties the three Maps; nothing inside its
  \<^verbatim>\<open>try\<close> block can throw.
\<close>

definition JSLiteDB_clear :: "db \<Rightarrow> (js_error + bool) \<times> db" where
  "JSLiteDB_clear s0 =
     (case ensureInitialized s0 of
        (Inl e, s) \<Rightarrow> (Inl e, s)
      | (Inr u, s) \<Rightarrow>
          (let s1 = fold (\<lambda>filePath st. snd (unlink filePath st)) (map snd (collectionFiles s)) s;
               s2 = snd (unlink (indexFilePath s1) s1)
           in (Inr True, s2\<lparr>collectionData := [], collectionFiles := [], cache := []\<rparr>)))"

text \<open>
  The assignment \<^verbatim>\<open>obj[key] = value\<close> on an object made by a literal. It creates
  or overwrites an own property, except for the key \<^verbatim>\<open>__proto__\<close>: unless the object
  has an own property of that name, the assignment reaches the accessor inherited
  from \<^verbatim>\<open>Object.prototype\<close>, which replaces the prototype and adds no own
  property, so that \<^verbatim>\<open>JSON.stringify\<close> does not see the value.
\<close>

definition assign_prop :: "string \<Rightarrow> json \<Rightarrow> (string \<times> json) list \<Rightarrow> (string \<times> json) list" where
  "assign_prop key v props =
     (if key = ''__proto__'' \<and> \<not> m_has props key then props else m_set key v props)"

text \<open>
  \<^verbatim>\<open>backup\<close> writes one object with every collection under its name. Any error
  is rethrown wrapped.
\<close>

definition JSLiteDB_backup :: "string \<Rightarrow> db \<Rightarrow> (js_error + unit) \<times> db" where
  "JSLiteDB_backup backupPath s0 =
     (case ensureInitialized s0 of
        (Inl e, s) \<Rightarrow> (Inl (BackupFailed e), s)
      | (Inr u, s) \<Rightarrow>
          (let collections =
                 fold (\<lambda>p props. assign_prop (fst p) (Object_fromEntries (snd p)) props)
                   (collectionData s) [];
               backupData =
                 JObj [(''version'', JNum 2), (''timestamp'', JNum (clock s)),
                       (''folderBased'', JBool True),
                       (''collections'', JObj (own_entries collections))]
           in case writeFile backupPath (Json backupData) s of
                (Inl e, s1) \<Rightarrow> (Inl (BackupFailed e), s1)
              | (Inr u, s1) \<Rightarrow> (Inr (), s1)))"

definition is_truthy :: "json option \<Rightarrow> bool" where
  "is_truthy v = (case v of None \<Rightarrow> False | Some x \<Rightarrow> truthy x)"

text \<open>The loop of \<^verbatim>\<open>restore\<close> over the collections of a folder-based backup.\<close>

fun restore_collections :: "(string \<times> json) list \<Rightarrow> db \<Rightarrow> (js_error + unit) \<times> db" where
  "restore_collections [] s = (Inr (), s)"
| "restore_collections ((collectionName, collectionDoc) # rest) s =
     (case Object_entries collectionDoc of
        Inl e \<Rightarrow> (Inl e, s)
      | Inr es \<Rightarrow>
          (let s1 = s\<lparr>collectionData := m_set collectionName (create_all [] es) (collectionData s)\<rparr>
           in case saveCollection collectionName s1 of
                (Inl e, s2) \<Rightarrow> (Inl e, s2)
              | (Inr u, s2) \<Rightarrow> restore_collections rest s2))"

text \<open>
  The two formats \<^verbatim>\<open>restore\<close> accepts: the folder-based one, and the legacy flat
  one that goes to the collection \<^verbatim>\<open>_default\<close>.
\<close>

definition restore_data :: "json \<Rightarrow> db \<Rightarrow> (js_error + unit) \<times> db" where
  "restore_data backupData s =
     (case get_prop backupData ''folderBased'' of
        Inl e \<Rightarrow> (Inl e, s)
      | Inr folderBased \<Rightarrow>
          (case get_prop backupData ''collections'' of
             Inl e \<Rightarrow> (Inl e, s)
           | Inr collections \<Rightarrow>
               (if is_truthy folderBased \<and> is_truthy collections
                then (case Object_entries (the collections) of
                        Inl e \<Rightarrow> (Inl e, s)
                      | Inr cs \<Rightarrow> restore_collections cs s)
                else (case Object_entries backupData of
                        Inl e \<Rightarrow> (Inl e, s)
                      | Inr es \<Rightarrow>
                          saveCollection ''_default''
                            (s\<lparr>collectionData := m_set ''_default'' (create_all [] es) (collectionData s)\<rparr>)))))"

text \<open>
  \<^verbatim>\<open>restore\<close> copies the two Maps first. Whatever is thrown after that puts
  the copies back and is rethrown wrapped; the cache and the files stay as the
  failed attempt left them.
\<close>

definition rollback :: "db \<Rightarrow> js_error \<Rightarrow> db \<Rightarrow> (js_error + unit) \<times> db" where
  "rollback s0 e s =
     (Inl (RestoreFailed e),
      s\<lparr>collectionData := collectionData s0, collectionFiles := collectionFiles s0\<rparr>)"

definition JSLiteDB_restore :: "string \<Rightarrow> db \<Rightarrow> (js_error + unit) \<times> db" where
  "JSLiteDB_restore backupPath s0 =
     (case readFile backupPath s0 of
        Inl e \<Rightarrow> rollback s0 e s0
      | Inr c \<Rightarrow>
          (case JSON_parse c of
             Inl e \<Rightarrow> rollback s0 e s0
           | Inr backupData \<Rightarrow>
               (case ensureInitialized s0 of
                  (Inl e, s) \<Rightarrow> rollback s0 e s
                | (Inr u, s) \<Rightarrow>
                    (case restore_data backupData
                            (s\<lparr>collectionData := [], collectionFiles := [], cache := []\<rparr>) of
                       (Inl e, s2) \<Rightarrow> rollback s0 e s2
                     | (Inr u, s2) \<Rightarrow>
                         (case saveCollectionIndex s2 of
                            (Inl e, s3) \<Rightarrow> rollback s0 e s3
                          | (Inr u, s3) \<Rightarrow> (Inr (), s3))))))"

section \<open>The write mutex\<close>

text \<open>
  \<^verbatim>\<open>WriteMutex\<close> holds a flag and a queue of the \<^verbatim>\<open>resolve\<close> callbacks of the
  callers that wait. A callback is named by the number of the call that queued it.
\<close>

record mutex =
  locked :: bool
  queue :: "nat list"

text \<open>
  \<^verbatim>\<open>_acquire\<close>, for the call \<open>c\<close>: takes the free lock and resolves at once, or
  queues the callback. The boolean tells whether the promise was resolved.
\<close>

definition acquire_lock :: "nat \<Rightarrow> mutex \<Rightarrow> mutex \<times> bool" where
  "acquire_lock c m =
     (if \<not> locked m then (m\<lparr>locked := True\<rparr>, True)
      else (m\<lparr>queue := queue m @ [c]\<rparr>, False))"

text \<open>
  \<^verbatim>\<open>release\<close>: shifts the queue and resolves the callback taken, the flag staying
  set; with an empty queue it clears the flag.
\<close>

definition release :: "mutex \<Rightarrow> mutex \<times> nat option" where
  "release m =
     (case queue m of
        [] \<Rightarrow> (m\<lparr>locked := False\<rparr>, None)
      | next_cb # rest \<Rightarrow> (m\<lparr>queue := rest\<rparr>, Some next_cb))"

text \<open>
  JavaScript runs one synchronous stretch of code at a time, so the calls of
  \<^verbatim>\<open>acquire(fn)\<close> interleave only at their \<^verbatim>\<open>await\<close> points. A call goes through
  three stretches: \<open>Call\<close> runs \<^verbatim>\<open>_acquire\<close> up to the first \<^verbatim>\<open>await\<close>;
  \<open>Start c\<close> is the continuation of call \<open>c\<close> once its promise is resolved, which
  starts \<^verbatim>\<open>fn\<close>; \<open>Settle c\<close> is the \<^verbatim>\<open>finally\<close> block that runs \<^verbatim>\<open>release\<close> when
  \<^verbatim>\<open>fn\<close> has returned or thrown. Calls are numbered in the order of their arrival.
  Besides the mutex, the state records the number of calls so far, the calls whose
  promise was resolved in the order of resolution, those among them whose
  \<^verbatim>\<open>fn\<close> has not started yet, and the calls whose \<^verbatim>\<open>fn\<close> is executing.
\<close>

record sys =
  mutex_of :: mutex
  calls :: nat
  granted :: "nat list"
  pending :: "nat list"
  executing :: "nat list"

datatype event = Call | Start nat | Settle nat

definition grant :: "nat option \<Rightarrow> nat list \<Rightarrow> nat list" where
  "grant c cs = (case c of None \<Rightarrow> cs | Some n \<Rightarrow> cs @ [n])"

fun step :: "event \<Rightarrow> sys \<Rightarrow> sys" where
  "step Call s =
     (let c = calls s;
          r = acquire_lock c (mutex_of s);
          g = (if snd r then Some c else None)
      in s\<lparr>mutex_of := fst r, calls := c + 1,
           granted := grant g (granted s), pending := grant g (pending s)\<rparr>)"
| "step (Start c) s =
     (if c \<in> set (pending s)
      then s\<lparr>pending := remove1 c (pending s), executing := executing s @ [c]\<rparr>
      else s)"
| "step (Settle c) s =
     (if c \<in> set (executing s)
      then (let r = release (mutex_of s)
            in s\<lparr>mutex_of := fst r, executing := remove1 c (executing s),
                 granted := grant (snd r) (granted s), pending := grant (snd r) (pending s)\<rparr>)
      else s)"

definition initial :: sys where
  "initial = \<lparr>mutex_of = \<lparr>locked = False, queue = []\<rparr>, calls = 0,
              granted = [], pending = [], executing = []\<rparr>"

definition run :: "event list \<Rightarrow> sys" where
  "run es = fold step es initial"

section \<open>Notions used to state the properties\<close>

text \<open>A stored entry as the scans return it: the key attached to the body.\<close>

definition attach :: "string \<times> json \<Rightarrow> json" where
  "attach p = with_id (JStr (fst p)) (snd p)"

text \<open>The entries that pass the filter, in order, each with its key attached.\<close>

definition matching :: "filter_arg \<Rightarrow> (string \<times> json) list \<Rightarrow> json list" where
  "matching flt es = map attach (filter (\<lambda>p. passes flt (snd p) (fst p)) es)"

text \<open>What a limit does to a list when \<open>n\<close> results are there already.\<close>

definition limited :: "int option \<Rightarrow> nat \<Rightarrow> json list \<Rightarrow> json list" where
  "limited limit n xs =
     (case limit of None \<Rightarrow> xs | Some l \<Rightarrow> if l = 0 then xs else take (nat l - n) xs)"

text \<open>
  The reading of \<^verbatim>\<open>find\<close> in the specification: drop the first \<open>skip\<close> entries,
  keep those that pass the filter, stop after \<open>limit\<close> of them.
\<close>

definition find_spec ::
  "nat \<Rightarrow> nat \<Rightarrow> (json \<Rightarrow> string \<Rightarrow> bool) \<Rightarrow> (string \<times> json) list \<Rightarrow> json list" where
  "find_spec skip limit f es =
     take limit (map attach (filter (\<lambda>p. f (snd p) (fst p)) (drop skip es)))"

text \<open>Two filter functions for the examples.\<close>

definition accept_all :: "json \<Rightarrow> string \<Rightarrow> bool" where
  "accept_all document i = True"

definition is_active :: "json \<Rightarrow> string \<Rightarrow> bool" where
  "is_active document i = (get_prop document ''active'' = Inr (Some (JBool True)))"

text \<open>
  The invariant of the mutex runs: whoever was granted the lock and has not
  released it is alone; the flag is set exactly while there is such a holder;
  nobody waits for a free lock; and the calls granted so far followed by the
  calls waiting are the calls in their order of arrival.
\<close>

definition mutex_inv :: "sys \<Rightarrow> bool" where
  "mutex_inv s =
     (length (pending s @ executing s) \<le> 1
      \<and> locked (mutex_of s) = (pending s @ executing s \<noteq> [])
      \<and> (locked (mutex_of s) \<or> queue (mutex_of s) = [])
      \<and> granted s @ queue (mutex_of s) = [0..<calls s])"

text \<open>
  The lists that stand for the store's Maps are well formed when no key is
  repeated in them, as in any Map.
\<close>

definition well_formed :: "db \<Rightarrow> bool" where
  "well_formed s =
     (distinct (m_keys (collectionData s))
      \<and> list_all (\<lambda>p. distinct (m_keys (snd p))) (collectionData s))"

text \<open>The Map that \<^verbatim>\<open>restore\<close> builds from one collection of a backup.\<close>

definition data_map_of :: "json \<Rightarrow> (string \<times> json) list" where
  "data_map_of collectionDoc =
     (case Object_entries collectionDoc of Inl e \<Rightarrow> [] | Inr es \<Rightarrow> create_all [] es)"

text \<open>
  The own enumerable property \<open>k\<close> of a value as a spread copies it, \<open>None\<close>
  when there is none. For an object it is what reading the property gives.
\<close>

definition own_prop :: "json \<Rightarrow> string \<Rightarrow> json option" where
  "own_prop v k = map_of (create_all [] (spread v)) k"

section \<open>Example stores\<close>

text \<open>An initialized store with one collection of one document, as an insert leaves it.\<close>

definition store1 :: db where
  "store1 =
     \<lparr>folderPath = ''/data'', maxMemoryItems = 2,
      collectionFiles = [(''users'', ''/data/users.json'')],
      collectionData = [(''users'', [(''7'', JObj [(''name'', JStr ''Ann'')])])],
      cache = [(''users:7'', JObj [(''name'', JStr ''Ann'')])],
      isInitialized = True,
      files = [(''/data/users.json'', Json (JObj [(''7'', JObj [(''name'', JStr ''Ann'')])])),
               (''/data/.index.json'',
                Json (JObj [(''version'', JNum 2), (''timestamp'', JNum 0),
                            (''collections'', JArr [JStr ''users''])]))],
      denied = [], clock = 0\<rparr>"

text \<open>Five documents, of which the second and the fourth are active.\<close>

definition five :: "(string \<times> json) list" where
  "five = [(''a'', JObj [(''active'', JBool False)]),
           (''b'', JObj [(''active'', JBool True)]),
           (''c'', JObj [(''active'', JBool False)]),
           (''d'', JObj [(''active'', JBool True)]),
           (''e'', JObj [(''active'', JBool False)])]"

definition store5 :: db where
  "store5 =
     \<lparr>folderPath = ''/data'', maxMemoryItems = 10000,
      collectionFiles = [(''items'', ''/data/items.json'')],
      collectionData = [(''items'', five)],
      cache = [],
      isInitialized = True,
      files = [(''/data/items.json'', Json (JObj five)),
               (''/data/.index.json'',
                Json (JObj [(''version'', JNum 2), (''timestamp'', JNum 0),
                            (''collections'', JArr [JStr ''items''])]))],
      denied = [], clock = 0\<rparr>"

text \<open>An initialized store with nothing in it.\<close>

definition empty_store :: db where
  "empty_store =
     \<lparr>folderPath = ''/data'', maxMemoryItems = 10000,
      collectionFiles = [], collectionData = [], cache = [],
      isInitialized = True, files = [], denied = [], clock = 0\<rparr>"

text \<open>The store after one insert into a collection named like the manifest.\<close>

definition store_dot :: db where
  "store_dot =
     snd (Collection_insert ''.index'' (JStr ''x'') (Some (JObj [(''n'', JNum 1)])) ''g'' empty_store)"

text \<open>
  A backup of two collections, and the one-document store with that backup, a
  file that is not JSON, and a collection file that cannot be written.
\<close>

definition backup2 :: json where
  "backup2 =
     JObj [(''version'', JNum 2), (''timestamp'', JNum 0), (''folderBased'', JBool True),
           (''collections'',
            JObj [(''a'', JObj [(''1'', JObj [(''x'', JNum 1)])]),
                  (''b'', JObj [(''2'', JObj [(''y'', JNum 2)])])])]"

definition store_ro :: db where
  "store_ro =
     store1\<lparr>files := files store1 @ [(''/backup.json'', Json backup2), (''/bad.json'', Garbage)],
            denied := [''/data/b.json'']\<rparr>"

text \<open>
  A store with two collections, one of them with keys that are array indices, and
  the states that a backup, a clear and a restore from the backup lead through.
\<close>

definition store_two :: db where
  "store_two =
     \<lparr>folderPath = ''/data'', maxMemoryItems = 10000,
      collectionFiles = [(''users'', ''/data/users.json''), (''logs'', ''/data/logs.json'')],
      collectionData =
        [(''users'', [(''b'', JObj [(''n'', JNum 1)]), (''10'', JObj [(''n'', JNum 2)]),
                      (''2'', JObj [(''n'', JNum 3)])]),
         (''logs'', [(''x'', JStr ''hello'')])],
      cache = [(''logs:x'', JStr ''hello'')],
      isInitialized = True,
      files = [(''/data/users.json'',
                Json (JObj [(''2'', JObj [(''n'', JNum 3)]), (''10'', JObj [(''n'', JNum 2)]),
                            (''b'', JObj [(''n'', JNum 1)])])),
               (''/data/logs.json'', Json (JObj [(''x'', JStr ''hello'')])),
               (''/data/.index.json'',
                Json (JObj [(''version'', JNum 2), (''timestamp'', JNum 0),
                            (''collections'', JArr [JStr ''users'', JStr ''logs''])]))],
      denied = [], clock = 0\<rparr>"

definition two_backed_up :: db where
  "two_backed_up = snd (JSLiteDB_backup ''/backup.json'' store_two)"

definition two_cleared :: db where
  "two_cleared = snd (JSLiteDB_clear two_backed_up)"

definition two_restored :: db where
  "two_restored = snd (JSLiteDB_restore ''/backup.json'' two_cleared)"

text \<open>
  The one-document store after an insert into a collection named \<^verbatim>\<open>__proto__\<close>,
  and the same three steps from there.
\<close>

definition store_proto :: db where
  "store_proto =
     snd (Collection_insert ''__proto__'' (JStr ''a'') (Some (JObj [(''n'', JNum 1)])) ''g'' store1)"

definition proto_backed_up :: db where
  "proto_backed_up = snd (JSLiteDB_backup ''/backup.json'' store_proto)"

definition proto_cleared :: db where
  "proto_cleared = snd (JSLiteDB_clear proto_backed_up)"

definition proto_restored :: db where
  "proto_restored = snd (JSLiteDB_restore ''/backup.json'' proto_cleared)"

section \<open>Properties\<close>

subsection \<open>Evaluation of the coercions on the examples\<close>

lemma string_of_int_7: "string_of_int 7 = ''7''"
  by code_simp

subsection \<open>Facts about the Map operations\<close>

lemma m_get_m_set_same [simp]: "m_get (m_set k v m) k = Some v"
  by (induction m) (auto simp: m_get_def)

lemma m_get_m_set_other [simp]: "k' \<noteq> k \<Longrightarrow> m_get (m_set k v m) k' = m_get m k'"
  by (induction m) (auto simp: m_get_def)

lemma m_get_m_delete_same [simp]: "m_get (m_delete k m) k = None"
  by (induction m) (auto simp: m_get_def m_delete_def)

lemma m_get_m_delete_other [simp]: "k' \<noteq> k \<Longrightarrow> m_get (m_delete k m) k' = m_get m k'"
  by (induction m) (auto simp: m_get_def m_delete_def)

lemma m_has_m_get: "m_has m k = (m_get m k \<noteq> None)"
  by (simp add: m_has_def m_get_def)

subsection \<open>What each call leaves untouched\<close>

lemma writeFile_keeps [simp]:
  "collectionData (snd (writeFile p c s)) = collectionData s"
  "collectionFiles (snd (writeFile p c s)) = collectionFiles s"
  "cache (snd (writeFile p c s)) = cache s"
  "isInitialized (snd (writeFile p c s)) = isInitialized s"
  "folderPath (snd (writeFile p c s)) = folderPath s"
  "maxMemoryItems (snd (writeFile p c s)) = maxMemoryItems s"
  "denied (snd (writeFile p c s)) = denied s"
  "clock (snd (writeFile p c s)) = clock s"
  by (simp_all add: writeFile_def)

lemma unlink_keeps [simp]:
  "collectionData (snd (unlink p s)) = collectionData s"
  "collectionFiles (snd (unlink p s)) = collectionFiles s"
  "cache (snd (unlink p s)) = cache s"
  "isInitialized (snd (unlink p s)) = isInitialized s"
  "folderPath (snd (unlink p s)) = folderPath s"
  "maxMemoryItems (snd (unlink p s)) = maxMemoryItems s"
  "denied (snd (unlink p s)) = denied s"
  "clock (snd (unlink p s)) = clock s"
  by (simp_all add: unlink_def)

lemma saveCollectionIndex_keeps [simp]:
  "collectionData (snd (saveCollectionIndex s)) = collectionData s"
  "collectionFiles (snd (saveCollectionIndex s)) = collectionFiles s"
  "cache (snd (saveCollectionIndex s)) = cache s"
  "isInitialized (snd (saveCollectionIndex s)) = isInitialized s"
  "folderPath (snd (saveCollectionIndex s)) = folderPath s"
  "maxMemoryItems (snd (saveCollectionIndex s)) = maxMemoryItems s"
  "denied (snd (saveCollectionIndex s)) = denied s"
  "clock (snd (saveCollectionIndex s)) = clock s"
  by (simp_all add: saveCollectionIndex_def)

lemma saveCollection_keeps [simp]:
  "collectionData (snd (saveCollection name s)) = collectionData s"
  "cache (snd (saveCollection name s)) = cache s"
  "isInitialized (snd (saveCollection name s)) = isInitialized s"
  "folderPath (snd (saveCollection name s)) = folderPath s"
  "maxMemoryItems (snd (saveCollection name s)) = maxMemoryItems s"
  "denied (snd (saveCollection name s)) = denied s"
  "clock (snd (saveCollection name s)) = clock s"
  by (simp_all add: saveCollection_def Let_def writeFile_def split: option.splits)

lemma loadCollection_keeps [simp]:
  "cache (snd (loadCollection name s)) = cache s"
  "isInitialized (snd (loadCollection name s)) = isInitialized s"
  "files (snd (loadCollection name s)) = files s"
  "folderPath (snd (loadCollection name s)) = folderPath s"
  "maxMemoryItems (snd (loadCollection name s)) = maxMemoryItems s"
  "denied (snd (loadCollection name s)) = denied s"
  "clock (snd (loadCollection name s)) = clock s"
  by (simp_all add: loadCollection_def Let_def split: sum.splits)

lemma get_or_load_keeps [simp]:
  "cache (snd (get_or_load name s)) = cache s"
  "isInitialized (snd (get_or_load name s)) = isInitialized s"
  "files (snd (get_or_load name s)) = files s"
  "folderPath (snd (get_or_load name s)) = folderPath s"
  "maxMemoryItems (snd (get_or_load name s)) = maxMemoryItems s"
  "denied (snd (get_or_load name s)) = denied s"
  "clock (snd (get_or_load name s)) = clock s"
  by (simp_all add: get_or_load_def split: option.splits)

lemma addToCache_keeps [simp]:
  "collectionData (addToCache k v s) = collectionData s"
  "collectionFiles (addToCache k v s) = collectionFiles s"
  "isInitialized (addToCache k v s) = isInitialized s"
  "files (addToCache k v s) = files s"
  "folderPath (addToCache k v s) = folderPath s"
  "maxMemoryItems (addToCache k v s) = maxMemoryItems s"
  "denied (addToCache k v s) = denied s"
  "clock (addToCache k v s) = clock s"
  by (simp_all add: addToCache_def Let_def)

lemma addToCache_get [simp]: "m_get (cache (addToCache k v s)) k = Some v"
  by (simp add: addToCache_def Let_def)

lemma ensureInitialized_success:
  assumes "ensureInitialized s = (Inr u, s')"
  shows "isInitialized s'"
  using assms
  by (auto simp: ensureInitialized_def split: if_splits prod.splits sum.splits)

subsection \<open>Uniqueness of identifiers\<close>

lemma insert_success:
  assumes "Collection_insert name i (Some body) generated s = (Inr r, s1)"
  shows "isInitialized s1
         \<and> (\<exists>data. m_get (collectionData s1) name = Some data
                \<and> m_get data (js_String i) = Some body)"
proof -
  from assms obtain s0 where i0: "ensureInitialized s = (Inr (), s0)"
    by (auto simp: Collection_insert_def split: prod.splits sum.splits)
  from assms i0 obtain data s2 where g: "get_or_load name s0 = (Inr data, s2)"
    by (auto simp: Collection_insert_def Let_def split: prod.splits sum.splits)
  define s3 where "s3 = addToCache (name @ '':'' @ js_String i) body
     (s2\<lparr>collectionData := m_set name (m_set (js_String i) body data) (collectionData s2)\<rparr>)"
  from assms i0 g obtain s4 where sv: "saveCollection name s3 = (Inr (), s4)"
    by (auto simp: Collection_insert_def Let_def s3_def split: prod.splits sum.splits if_splits)
  from assms i0 g sv have sx: "saveCollectionIndex s4 = (Inr (), s1)"
    by (auto simp: Collection_insert_def Let_def s3_def split: prod.splits sum.splits if_splits)
  have e2: "s2 = snd (get_or_load name s0)" using g by simp
  have e4: "s4 = snd (saveCollection name s3)" using sv by simp
  have e5: "s1 = snd (saveCollectionIndex s4)" using sx by simp
  have "isInitialized s0" using i0 by (rule ensureInitialized_success)
  then have a: "isInitialized s1" by (simp add: e5 e4 s3_def e2)
  have "m_get (collectionData s1) name = Some (m_set (js_String i) body data)"
    by (simp add: e5 e4 s3_def)
  with a show ?thesis by simp
qed



subsection \<open>Cache consistency\<close>

lemma findById_cached:
  assumes "isInitialized s" and "m_get (cache s) (name @ '':'' @ js_String i) = Some v"
  shows "Collection_findById name i s = (Inr v, s)"
  using assms by (simp add: Collection_findById_def ensureInitialized_def)

lemma findById_absent:
  assumes "isInitialized s" and "m_get (cache s) (name @ '':'' @ js_String i) = None"
    and "m_get (collectionData s) name = None
         \<or> (\<exists>data. m_get (collectionData s) name = Some data \<and> m_get data (js_String i) = None)"
  shows "Collection_findById name i s = (Inr JNull, s)"
  using assms by (auto simp: Collection_findById_def ensureInitialized_def)

lemma update_success:
  assumes "Collection_update name i body s = (Inr r, s')"
  shows "isInitialized s' \<and> m_get (cache s') (name @ '':'' @ js_String i) = Some body \<and> r = body"
proof -
  from assms obtain s1 where i1: "ensureInitialized s = (Inr (), s1)"
    by (auto simp: Collection_update_def split: prod.splits sum.splits)
  from assms i1 obtain data s2 where g: "get_or_load name s1 = (Inr data, s2)"
    by (auto simp: Collection_update_def Let_def split: prod.splits sum.splits)
  define s3 where "s3 = addToCache (name @ '':'' @ js_String i) body
     (s2\<lparr>collectionData := m_set name (m_set (js_String i) body data) (collectionData s2)\<rparr>)"
  from assms i1 g obtain s4 where sv: "saveCollection name s3 = (Inr (), s4)"
    by (auto simp: Collection_update_def Let_def s3_def split: prod.splits sum.splits)
  from assms i1 g sv have sx: "saveCollectionIndex s4 = (Inr (), s')" and r: "r = body"
    by (auto simp: Collection_update_def Let_def s3_def split: prod.splits sum.splits)
  have e2: "s2 = snd (get_or_load name s1)" using g by simp
  have e4: "s4 = snd (saveCollection name s3)" using sv by simp
  have e5: "s' = snd (saveCollectionIndex s4)" using sx by simp
  have "isInitialized s1" using i1 by (rule ensureInitialized_success)
  then have "isInitialized s'" by (simp add: e5 e4 s3_def e2)
  moreover have "m_get (cache s') (name @ '':'' @ js_String i) = Some body"
    by (simp add: e5 e4 s3_def)
  ultimately show ?thesis using r by simp
qed

lemma delete_success:
  assumes "Collection_delete name i s = (Inr True, s')"
  shows "isInitialized s' \<and> m_get (cache s') (name @ '':'' @ js_String i) = None
         \<and> (m_get (collectionData s') name = None
            \<or> (\<exists>data. m_get (collectionData s') name = Some data \<and> m_get data (js_String i) = None))"
proof -
  from assms obtain s1 where i1: "ensureInitialized s = (Inr (), s1)"
    by (auto simp: Collection_delete_def split: prod.splits sum.splits)
  from assms i1 obtain data where d: "m_get (collectionData s1) name = Some data"
    by (auto simp: Collection_delete_def split: option.splits)
  define data' where "data' = m_delete (js_String i) data"
  define s2 where "s2 = s1\<lparr>collectionData := m_set name data' (collectionData s1),
                           cache := m_delete (name @ '':'' @ js_String i) (cache s1)\<rparr>"
  from assms i1 d obtain s3 where sv: "saveCollection name s2 = (Inr (), s3)"
    by (auto simp: Collection_delete_def Let_def s2_def data'_def split: prod.splits sum.splits if_splits)
  define s6 where "s6 =
     (if m_size data' = 0
      then (let s4 = s3\<lparr>collectionData := m_delete name (collectionData s3)\<rparr>;
                s5 = (case m_get (collectionFiles s4) name of
                        None \<Rightarrow> s4
                      | Some filePath \<Rightarrow> (if filePath \<noteq> [] then snd (unlink filePath s4) else s4))
            in s5\<lparr>collectionFiles := m_delete name (collectionFiles s5)\<rparr>)
      else s3)"
  from assms i1 d sv have sx: "saveCollectionIndex s6 = (Inr (), s')"
    by (auto simp: Collection_delete_def Let_def s2_def s6_def data'_def split: prod.splits sum.splits if_splits)
  have e3: "s3 = snd (saveCollection name s2)" using sv by simp
  have e7: "s' = snd (saveCollectionIndex s6)" using sx by simp
  have init: "isInitialized s1" using i1 by (rule ensureInitialized_success)
  have a: "isInitialized s'"
    using init by (simp add: e7 s6_def e3 s2_def Let_def split: option.splits)
  have b: "m_get (cache s') (name @ '':'' @ js_String i) = None"
    by (simp add: e7 s6_def e3 s2_def Let_def split: option.splits)
  have c: "m_get (collectionData s') name = None
         \<or> (\<exists>d. m_get (collectionData s') name = Some d \<and> m_get d (js_String i) = None)"
    by (simp add: e7 s6_def e3 s2_def Let_def data'_def split: option.splits)
  from a b c show ?thesis by simp
qed



subsection \<open>Scanning a collection\<close>

text \<open>
  The loop of \<^verbatim>\<open>find\<close> in closed form: the entries still to skip are dropped
  whatever the filter says of them, the rest is filtered, and a limit other than 0
  cuts the list of results.
\<close>

lemma find_loop_eq:
  "find_loop limit skip flt es skipped results
     = results @ limited limit (length results) (matching flt (drop (nat (skip - skipped)) es))"
proof (induction es arbitrary: skipped results)
  case Nil
  show ?case by (simp add: limited_def matching_def split: option.splits)
next
  case (Cons e es)
  obtain i document where e: "e = (i, document)" by (cases e)
  show ?case
  proof (cases "skipped < skip")
    case True
    then have "nat (skip - skipped) = Suc (nat (skip - (skipped + 1)))" by simp
    with True Cons.IH [of "skipped + 1" results] e show ?thesis by simp
  next
    case False
    then have z: "nat (skip - skipped) = 0" by simp
    show ?thesis
    proof (cases "case limit of None \<Rightarrow> False | Some l \<Rightarrow> l \<noteq> 0 \<and> l \<le> int (length results)")
      case True
      with False z e show ?thesis by (auto simp: limited_def split: option.splits)
    next
      case nobreak: False
      show ?thesis
      proof (cases "passes flt document i")
        case True
        with False nobreak z e Cons.IH [of skipped "results @ [attach e]"] show ?thesis
          by (auto simp: limited_def matching_def attach_def take_Cons' nat_diff_distrib split: option.splits)
      next
        case nopass: False
        with False nobreak z e Cons.IH [of skipped results] show ?thesis
          by (auto simp: limited_def matching_def split: option.splits)
      qed
    qed
  qed
qed

lemma find_initialized:
  assumes "isInitialized s" and "m_get (collectionData s) name = Some es"
  shows "Collection_find name options s
         = (Inr (limited (opt_limit options) 0
                   (matching (opt_filter options)
                      (drop (nat (case opt_skip options of None \<Rightarrow> 0 | Some k \<Rightarrow> k)) es))), s)"
  using assms by (simp add: Collection_find_def ensureInitialized_def find_loop_eq)

text \<open>
  Claim C2, amended. In an initialized store, \<^verbatim>\<open>find\<close> with a filter function, a
  skip and a strictly positive limit walks the collection in insertion order,
  drops the first \<open>skip\<close> entries whether or not they pass the filter, and returns
  in order the entries that pass, up to \<open>limit\<close> of them: it agrees with
  \<open>find_spec\<close>. In particular, with five documents of which exactly those at
  positions 1 and 3 pass, skip 2 and limit 1 give exactly the document at position 3.
\<close>

theorem find_skip_filter_limit:
  assumes "isInitialized s" and "m_get (collectionData s) name = Some es"
  shows "(0 < limit \<longrightarrow>
            Collection_find name
              \<lparr>opt_limit = Some (int limit), opt_skip = Some (int skip), opt_filter = FilterFn f\<rparr> s
              = (Inr (find_spec skip limit f es), s))
       \<and> (es = [e0, e1, e2, e3, e4]
            \<and> \<not> f (snd e0) (fst e0) \<and> f (snd e1) (fst e1) \<and> \<not> f (snd e2) (fst e2)
            \<and> f (snd e3) (fst e3) \<and> \<not> f (snd e4) (fst e4) \<longrightarrow>
            Collection_find name
              \<lparr>opt_limit = Some 1, opt_skip = Some 2, opt_filter = FilterFn f\<rparr> s
              = (Inr [attach e3], s))"
  using assms by (simp add: find_initialized limited_def matching_def find_spec_def)

lemma five_filter:
  "\<not> is_active (JObj [(''active'', JBool False)]) i"
  "is_active (JObj [(''active'', JBool True)]) i"
  by (simp_all add: is_active_def create_all_def)

theorem find_skip_filter_limit_witness:
  "isInitialized store5 \<and> m_get (collectionData store5) ''items'' = Some five
   \<and> Collection_find ''items''
        \<lparr>opt_limit = Some 1, opt_skip = Some 2, opt_filter = FilterFn is_active\<rparr> store5
       = (Inr [JObj [(''id'', JStr ''d''), (''active'', JBool True)]], store5)
   \<and> Collection_find ''items''
        \<lparr>opt_limit = Some 2, opt_skip = Some 1, opt_filter = FilterFn is_active\<rparr> store5
       = (Inr [JObj [(''id'', JStr ''b''), (''active'', JBool True)],
               JObj [(''id'', JStr ''d''), (''active'', JBool True)]], store5)"
proof -
  have a: "isInitialized store5" by (simp add: store5_def)
  have b: "m_get (collectionData store5) ''items'' = Some five" by (simp add: store5_def m_get_def)
  have at: "attach (''d'', JObj [(''active'', JBool True)]) = JObj [(''id'', JStr ''d''), (''active'', JBool True)]"
    "attach (''b'', JObj [(''active'', JBool True)]) = JObj [(''id'', JStr ''b''), (''active'', JBool True)]"
    by code_simp+
  note t = find_skip_filter_limit [OF a b, of _ _ is_active]
  have c: "Collection_find ''items''
        \<lparr>opt_limit = Some 1, opt_skip = Some 2, opt_filter = FilterFn is_active\<rparr> store5
       = (Inr [JObj [(''id'', JStr ''d''), (''active'', JBool True)]], store5)"
    using t [of 1 2 "(''a'', JObj [(''active'', JBool False)])" "(''b'', JObj [(''active'', JBool True)])"
        "(''c'', JObj [(''active'', JBool False)])" "(''d'', JObj [(''active'', JBool True)])"
        "(''e'', JObj [(''active'', JBool False)])"]
    by (simp add: find_spec_def five_def five_filter at)
  have d: "Collection_find ''items''
        \<lparr>opt_limit = Some 2, opt_skip = Some 1, opt_filter = FilterFn is_active\<rparr> store5
       = (Inr [JObj [(''id'', JStr ''b''), (''active'', JBool True)],
               JObj [(''id'', JStr ''d''), (''active'', JBool True)]], store5)"
    using t [of 2 1] by (simp add: find_spec_def five_def five_filter at)
  from a b c d show ?thesis by simp
qed

text \<open>
  Claim C2 as stated covers the limit 0, where stopping after \<open>limit\<close> passing
  entries gives the empty list. The code treats 0 as no limit: on the one-document
  store the call returns the document.
\<close>

theorem find_limit_zero_counterexample:
  "Collection_find ''users''
      \<lparr>opt_limit = Some 0, opt_skip = Some 0, opt_filter = FilterFn accept_all\<rparr> store1
     = (Inr [JObj [(''id'', JStr ''7''), (''name'', JStr ''Ann'')]], store1)
   \<and> find_spec 0 0 accept_all [(''7'', JObj [(''name'', JStr ''Ann'')])] = []"
  by code_simp




subsection \<open>Reads\<close>

lemma count_initialized:
  assumes "isInitialized s"
  shows "snd (Collection_count name arg s) = s"
  using assms
  by (simp add: Collection_count_def ensureInitialized_def split: option.splits)

lemma find_keeps:
  assumes "isInitialized s"
  shows "snd (Collection_find name options s) = s"
  using assms
  by (simp add: Collection_find_def ensureInitialized_def split: option.splits)

lemma stream_keeps:
  assumes "isInitialized s"
  shows "snd (Collection_stream name s) = s"
  using assms
  by (simp add: Collection_stream_def ensureInitialized_def split: option.splits)

lemma addToCache_only_cache: "addToCache k v s = s\<lparr>cache := cache (addToCache k v s)\<rparr>"
  by (simp add: addToCache_def Let_def)

lemma findById_keeps:
  assumes "isInitialized s"
  shows "snd (Collection_findById name i s) = s
         \<or> (\<exists>document. fst (Collection_findById name i s) = Inr document
               \<and> snd (Collection_findById name i s)
                   = addToCache (name @ '':'' @ js_String i) document s)"
  using assms
  by (auto simp: Collection_findById_def ensureInitialized_def Let_def split: option.splits)

text \<open>
  Claim C10. In an initialized store \<^verbatim>\<open>find\<close>, \<^verbatim>\<open>count\<close> and \<^verbatim>\<open>stream\<close> return
  the state they were given: Maps, cache and files are the same. \<^verbatim>\<open>findById\<close>
  changes nothing but the cache, and when it changes the cache it is by the one
  call of \<^verbatim>\<open>_addToCache\<close> that stores the document found under the key looked up.
\<close>

theorem reads_leave_state:
  assumes "isInitialized s"
  shows "snd (Collection_find name options s) = s
       \<and> snd (Collection_count name arg s) = s
       \<and> snd (Collection_stream name s) = s
       \<and> collectionData (snd (Collection_findById name i s)) = collectionData s
       \<and> collectionFiles (snd (Collection_findById name i s)) = collectionFiles s
       \<and> files (snd (Collection_findById name i s)) = files s
       \<and> snd (Collection_findById name i s) = s\<lparr>cache := cache (snd (Collection_findById name i s))\<rparr>
       \<and> (snd (Collection_findById name i s) = s
          \<or> (\<exists>document. fst (Collection_findById name i s) = Inr document
                \<and> snd (Collection_findById name i s)
                    = addToCache (name @ '':'' @ js_String i) document s))"
proof -
  have f: "snd (Collection_findById name i s) = s
         \<or> (\<exists>document. fst (Collection_findById name i s) = Inr document
               \<and> snd (Collection_findById name i s)
                   = addToCache (name @ '':'' @ js_String i) document s)"
    using assms by (rule findById_keeps)
  then have g: "snd (Collection_findById name i s) = s\<lparr>cache := cache (snd (Collection_findById name i s))\<rparr>"
    using addToCache_only_cache by auto
  have h: "collectionData (snd (Collection_findById name i s)) = collectionData s"
    "collectionFiles (snd (Collection_findById name i s)) = collectionFiles s"
    "files (snd (Collection_findById name i s)) = files s"
    using f by auto
  show ?thesis
    using assms f g h by (simp add: find_keeps count_initialized stream_keeps)
qed

theorem reads_leave_state_witness:
  "isInitialized store5
   \<and> snd (Collection_find ''items''
           \<lparr>opt_limit = Some 1, opt_skip = Some 2, opt_filter = FilterFn is_active\<rparr> store5) = store5
   \<and> snd (Collection_count ''items'' (CountFn is_active) store5) = store5
   \<and> snd (Collection_stream ''items'' store5) = store5
   \<and> snd (Collection_findById ''items'' (JStr ''b'') store5)
       = store5\<lparr>cache := cache (snd (Collection_findById ''items'' (JStr ''b'') store5))\<rparr>
   \<and> cache (snd (Collection_findById ''items'' (JStr ''b'') store5))
       = [(''items:b'', JObj [(''active'', JBool True)])]"
proof -
  have a: "isInitialized store5" by (simp add: store5_def)
  have c: "cache (snd (Collection_findById ''items'' (JStr ''b'') store5))
       = [(''items:b'', JObj [(''active'', JBool True)])]"
    by code_simp
  note t = reads_leave_state [OF a, of "''items''"
      "\<lparr>opt_limit = Some 1, opt_skip = Some 2, opt_filter = FilterFn is_active\<rparr>"
      "CountFn is_active" "JStr ''b''"]
  from t a c show ?thesis by blast
qed

subsection \<open>A failed restore\<close>

lemma rollback_unchanged: "rollback s e s = (Inl (RestoreFailed e), s)"
  by (simp add: rollback_def)

text \<open>
  Claim C6. Whenever \<^verbatim>\<open>restore\<close> fails, it throws the wrapped error and the
  collection-data Map and the collection-file Map are those from before the call,
  in every state. A backup file that cannot be read or parsed leaves the whole
  state as it was.
\<close>

theorem restore_failure_rolls_back:
  "(JSLiteDB_restore backupPath s = (Inl e, s') \<longrightarrow>
      (\<exists>cause. e = RestoreFailed cause)
      \<and> collectionData s' = collectionData s \<and> collectionFiles s' = collectionFiles s)
   \<and> (readFile backupPath s = Inl cause \<longrightarrow>
        JSLiteDB_restore backupPath s = (Inl (RestoreFailed cause), s))
   \<and> (readFile backupPath s = Inr Garbage \<longrightarrow>
        JSLiteDB_restore backupPath s = (Inl (RestoreFailed SyntaxError), s))"
proof -
  have a: "JSLiteDB_restore backupPath s = (Inl e, s') \<longrightarrow>
      (\<exists>cause. e = RestoreFailed cause)
      \<and> collectionData s' = collectionData s \<and> collectionFiles s' = collectionFiles s"
    by (auto simp: JSLiteDB_restore_def rollback_def split: sum.splits prod.splits)
  have b: "readFile backupPath s = Inl cause \<longrightarrow>
        JSLiteDB_restore backupPath s = (Inl (RestoreFailed cause), s)"
    by (simp add: JSLiteDB_restore_def rollback_unchanged)
  have c: "readFile backupPath s = Inr Garbage \<longrightarrow>
        JSLiteDB_restore backupPath s = (Inl (RestoreFailed SyntaxError), s)"
    by (simp add: JSLiteDB_restore_def rollback_unchanged JSON_parse_def)
  from a b c show ?thesis by blast
qed

theorem restore_failure_rolls_back_witness:
  "JSLiteDB_restore ''/missing.json'' store_ro = (Inl (RestoreFailed ENOENT), store_ro)
   \<and> JSLiteDB_restore ''/bad.json'' store_ro = (Inl (RestoreFailed SyntaxError), store_ro)
   \<and> JSLiteDB_restore ''/backup.json'' store_ro
       = (Inl (RestoreFailed EACCES), snd (JSLiteDB_restore ''/backup.json'' store_ro))
   \<and> collectionData (snd (JSLiteDB_restore ''/backup.json'' store_ro)) = collectionData store_ro
   \<and> collectionFiles (snd (JSLiteDB_restore ''/backup.json'' store_ro)) = collectionFiles store_ro
   \<and> m_get (files (snd (JSLiteDB_restore ''/backup.json'' store_ro))) ''/data/a.json''
       = Some (Json (JObj [(''1'', JObj [(''x'', JNum 1)])]))"
proof -
  have r1: "readFile ''/missing.json'' store_ro = Inl ENOENT" by code_simp
  have r2: "readFile ''/bad.json'' store_ro = Inr Garbage" by code_simp
  have r3: "fst (JSLiteDB_restore ''/backup.json'' store_ro) = Inl (RestoreFailed EACCES)"
    by code_simp
  have r4: "m_get (files (snd (JSLiteDB_restore ''/backup.json'' store_ro))) ''/data/a.json''
       = Some (Json (JObj [(''1'', JObj [(''x'', JNum 1)])]))"
    by code_simp
  have r3': "JSLiteDB_restore ''/backup.json'' store_ro
       = (Inl (RestoreFailed EACCES), snd (JSLiteDB_restore ''/backup.json'' store_ro))"
    using r3 by (simp add: prod_eq_iff)
  have m: "JSLiteDB_restore ''/missing.json'' store_ro = (Inl (RestoreFailed ENOENT), store_ro)"
    using restore_failure_rolls_back [of "''/missing.json''" store_ro _ _ ENOENT] r1 by blast
  have g: "JSLiteDB_restore ''/bad.json'' store_ro = (Inl (RestoreFailed SyntaxError), store_ro)"
    using restore_failure_rolls_back [of "''/bad.json''" store_ro] r2 by blast
  have k: "collectionData (snd (JSLiteDB_restore ''/backup.json'' store_ro)) = collectionData store_ro
     \<and> collectionFiles (snd (JSLiteDB_restore ''/backup.json'' store_ro)) = collectionFiles store_ro"
    using restore_failure_rolls_back [of "''/backup.json''" store_ro "RestoreFailed EACCES"
        "snd (JSLiteDB_restore ''/backup.json'' store_ro)"] r3' by blast
  from m g r3' k r4 show ?thesis by blast
qed

subsection \<open>Deleting the last document\<close>

lemma m_keys_m_delete [simp]: "k \<notin> set (m_keys (m_delete k m))"
  by (auto simp: m_keys_def m_delete_def)

lemma m_has_m_delete [simp]: "\<not> m_has (m_delete k m) k"
  by (simp add: m_has_m_get)

lemma m_get_None_keys: "m_get m k = None \<Longrightarrow> k \<notin> set (m_keys m)"
  by (simp add: m_get_def m_keys_def map_of_eq_None_iff)

lemma m_get_head [simp]: "m_get ((k, v) # m) k = Some v"
  by (simp add: m_get_def)

lemma m_delete_single [simp]: "m_delete k [(k, v)] = []"
  by (simp add: m_delete_def)

lemma path_join_nonempty: "path_join dir file \<noteq> []"
  by (simp add: path_join_def path_normalize_def Let_def)

text \<open>
  Where the path of the collection's file is not the path of the manifest, the
  cleanup does what it is meant to do. In an initialized store in which both
  files can be written, deleting the only document of such a collection returns
  true; afterwards the collection is in neither Map and not among the collection
  names, no file is left at its path, and the manifest on disk lists the
  remaining names, the collection's not among them.
\<close>

lemma delete_last_document:
  assumes "isInitialized s"
    and "m_get (collectionData s) name = Some [(js_String i, document)]"
    and "getCollectionFilePath s name \<notin> set (denied s)"
    and "indexFilePath s \<notin> set (denied s)"
    and "getCollectionFilePath s name \<noteq> indexFilePath s"
  shows "\<exists>s'. Collection_delete name i s = (Inr True, s')
           \<and> m_get (collectionData s') name = None
           \<and> m_get (collectionFiles s') name = None
           \<and> (\<exists>names. JSLiteDB_collections s' = (Inr names, s') \<and> name \<notin> set names)
           \<and> m_get (files s') (getCollectionFilePath s name) = None
           \<and> (\<exists>listed. m_get (files s') (indexFilePath s)
                   = Some (Json (JObj [(''version'', JNum 2), (''timestamp'', JNum (clock s)),
                                       (''collections'', JArr (map JStr listed))]))
                 \<and> name \<notin> set listed)"
proof -
  let ?p = "getCollectionFilePath s name"
  let ?s2 = "s\<lparr>collectionData := m_set name [] (collectionData s),
               cache := m_delete (name @ '':'' @ js_String i) (cache s)\<rparr>"
  let ?s3 = "?s2\<lparr>files := m_set ?p (Json (Object_fromEntries [])) (files s),
                  collectionFiles := m_set name ?p (collectionFiles s)\<rparr>"
  let ?s6 = "?s3\<lparr>collectionData := m_delete name (m_set name [] (collectionData s)),
                  files := m_delete ?p (m_set ?p (Json (Object_fromEntries [])) (files s)),
                  collectionFiles := m_delete name (m_set name ?p (collectionFiles s))\<rparr>"
  let ?listed = "m_keys (m_delete name (m_set name ?p (collectionFiles s)))"
  let ?manifest = "Json (JObj [(''version'', JNum 2), (''timestamp'', JNum (clock s)),
                                       (''collections'', JArr (map JStr ?listed))])"
  let ?s7 = "?s6\<lparr>files := m_set (indexFilePath s) ?manifest (files ?s6)\<rparr>"
  have ne: "?p \<noteq> indexFilePath s" "?p \<noteq> []"
    using assms(5) by (simp_all add: getCollectionFilePath_def path_join_nonempty)
  have sv: "saveCollection name ?s2 = (Inr (), ?s3)"
    using assms(3)
    by (simp add: saveCollection_def writeFile_def getCollectionFilePath_def Let_def)
  have d: "Collection_delete name i s = (Inr True, ?s7)"
    using assms ne sv
    by (simp add: Collection_delete_def ensureInitialized_def m_has_m_get m_size_def
          Let_def unlink_def saveCollectionIndex_def writeFile_def
          indexFilePath_def getCollectionFilePath_def)
  have c: "JSLiteDB_collections ?s7 = (Inr (m_keys (collectionData ?s7)), ?s7)"
    using assms(1) by (simp add: JSLiteDB_collections_def ensureInitialized_def)
  have "m_get (collectionData ?s7) name = None" by simp
  moreover have "m_get (collectionFiles ?s7) name = None" by simp
  moreover have "name \<notin> set (m_keys (collectionData ?s7))" by simp
  moreover have "m_get (files ?s7) ?p = None" using ne by simp
  moreover have "m_get (files ?s7) (indexFilePath s) = Some ?manifest" by simp
  moreover have "name \<notin> set ?listed" by simp
  ultimately show ?thesis using d c by blast
qed

lemma delete_last_document_example:
  "isInitialized store1
   \<and> m_get (collectionData store1) ''users'' = Some [(js_String (JNum 7), JObj [(''name'', JStr ''Ann'')])]
   \<and> getCollectionFilePath store1 ''users'' \<notin> set (denied store1)
   \<and> indexFilePath store1 \<notin> set (denied store1)
   \<and> getCollectionFilePath store1 ''users'' \<noteq> indexFilePath store1
   \<and> fst (Collection_delete ''users'' (JNum 7) store1) = Inr True
   \<and> m_get (collectionData (snd (Collection_delete ''users'' (JNum 7) store1))) ''users'' = None
   \<and> m_get (collectionFiles (snd (Collection_delete ''users'' (JNum 7) store1))) ''users'' = None
   \<and> m_get (files (snd (Collection_delete ''users'' (JNum 7) store1)))
         (getCollectionFilePath store1 ''users'') = None"
proof -
  have a: "isInitialized store1" by (simp add: store1_def)
  have b: "m_get (collectionData store1) ''users''
             = Some [(js_String (JNum 7), JObj [(''name'', JStr ''Ann'')])]"
    by (simp add: store1_def m_get_def string_of_int_7)
  have c: "getCollectionFilePath store1 ''users'' \<notin> set (denied store1)"
    by (simp add: store1_def)
  have d: "indexFilePath store1 \<notin> set (denied store1)"
    by (simp add: store1_def)
  have e: "getCollectionFilePath store1 ''users'' \<noteq> indexFilePath store1" by code_simp
  from delete_last_document [OF a b c d e] obtain s'
    where r: "Collection_delete ''users'' (JNum 7) store1 = (Inr True, s')"
      and p: "m_get (collectionData s') ''users'' = None"
             "m_get (collectionFiles s') ''users'' = None"
             "m_get (files s') (getCollectionFilePath store1 ''users'') = None"
    by blast
  from r have "fst (Collection_delete ''users'' (JNum 7) store1) = Inr True"
    and "snd (Collection_delete ''users'' (JNum 7) store1) = s'" by simp_all
  with a b c d e p show ?thesis by simp
qed

text \<open>
  Claim C4. A collection that holds exactly one document loses it by
  \<^verbatim>\<open>delete\<close>, and afterwards no file is to be left at the path of its backing
  file. The code misses the collection named \<^verbatim>\<open>.index\<close>, whose backing file
  is the manifest, and the names that \<^verbatim>\<open>path.join\<close> normalizes to the same
  path, such as \<^verbatim>\<open>./.index\<close>. In the store that one insert into \<^verbatim>\<open>.index\<close>
  leaves, deleting the only document returns true and takes the collection out of
  the Maps, but the cleanup unlinks the file and the manifest is written to the
  same path right after: a file is still there.
\<close>

theorem delete_last_document_manifest_collision:
  "isInitialized store_dot
   \<and> m_get (collectionData store_dot) ''.index'' = Some [(''x'', JObj [(''n'', JNum 1)])]
   \<and> getCollectionFilePath store_dot ''.index'' = indexFilePath store_dot
   \<and> getCollectionFilePath store_dot ''./.index'' = indexFilePath store_dot
   \<and> fst (Collection_delete ''.index'' (JStr ''x'') store_dot) = Inr True
   \<and> m_get (collectionData (snd (Collection_delete ''.index'' (JStr ''x'') store_dot))) ''.index''
       = None
   \<and> m_get (files (snd (Collection_delete ''.index'' (JStr ''x'') store_dot)))
         (getCollectionFilePath store_dot ''.index'')
       = Some (Json (JObj [(''version'', JNum 2), (''timestamp'', JNum 0),
                           (''collections'', JArr [])]))"
  by code_simp

subsection \<open>The write mutex\<close>

lemma mutex_inv_initial: "mutex_inv initial"
  by (simp add: mutex_inv_def initial_def)

lemma mutex_inv_step:
  assumes "mutex_inv s"
  shows "mutex_inv (step e s)"
proof (cases e)
  case Call
  show ?thesis
  proof (cases "locked (mutex_of s)")
    case True
    with assms Call show ?thesis
      by (simp add: mutex_inv_def acquire_lock_def grant_def Let_def)
  next
    case False
    with assms have "pending s = []" "executing s = []" "queue (mutex_of s) = []"
      by (auto simp: mutex_inv_def)
    with assms False Call show ?thesis
      by (simp add: mutex_inv_def acquire_lock_def grant_def Let_def)
  qed
next
  case (Start c)
  show ?thesis
  proof (cases "c \<in> set (pending s)")
    case True
    from assms have "length (pending s @ executing s) \<le> 1" by (simp add: mutex_inv_def)
    with True have "pending s = [c]" "executing s = []"
      by (cases "pending s"; cases "executing s"; auto)+
    with assms Start True show ?thesis by (simp add: mutex_inv_def)
  next
    case False
    with assms Start show ?thesis by simp
  qed
next
  case (Settle c)
  show ?thesis
  proof (cases "c \<in> set (executing s)")
    case True
    from assms have "length (pending s @ executing s) \<le> 1" by (simp add: mutex_inv_def)
    with True have pe: "executing s = [c]" "pending s = []"
      by (cases "pending s"; cases "executing s"; auto)+
    show ?thesis
    proof (cases "queue (mutex_of s)")
      case Nil
      with assms Settle True pe show ?thesis
        by (simp add: mutex_inv_def release_def grant_def Let_def)
    next
      case (Cons n rest)
      with assms Settle True pe show ?thesis
        by (simp add: mutex_inv_def release_def grant_def Let_def)
    qed
  next
    case False
    with assms Settle show ?thesis by simp
  qed
qed

lemma mutex_inv_fold: "mutex_inv s \<Longrightarrow> mutex_inv (fold step es s)"
  by (induction es arbitrary: s) (simp_all add: mutex_inv_step)

lemma mutex_inv_run: "mutex_inv (run es)"
  by (simp add: run_def mutex_inv_fold mutex_inv_initial)



subsection \<open>The Maps keep their keys unique\<close>

lemma m_keys_Nil [simp]: "m_keys [] = []"
  by (simp add: m_keys_def)

lemma keys_m_set: "set (m_keys (m_set k v m)) = insert k (set (m_keys m))"
  by (induction m) (auto simp: m_keys_def)

lemma distinct_m_set [simp]: "distinct (m_keys (m_set k v m)) = distinct (m_keys m)"
proof (induction m)
  case Nil
  show ?case by (simp add: m_keys_def)
next
  case (Cons p m)
  have "set (map fst (m_set k v m)) = insert k (set (map fst m))"
    using keys_m_set [of k v m] by (simp add: m_keys_def)
  with Cons show ?case by (auto simp: m_keys_def)
qed

lemma distinct_m_delete [simp]: "distinct (m_keys m) \<Longrightarrow> distinct (m_keys (m_delete k m))"
  by (simp add: m_keys_def m_delete_def distinct_map_filter)

lemma distinct_create_all [simp]:
  "distinct (m_keys acc) \<Longrightarrow> distinct (m_keys (create_all acc kvs))"
  by (induction kvs arbitrary: acc) (simp_all add: create_all_def)

lemma distinct_create_all_empty [simp]: "distinct (m_keys (create_all [] kvs))"
  by (rule distinct_create_all) (simp add: m_keys_def)

lemma list_all_m_set [simp]: "list_all P m \<Longrightarrow> P (k, v) \<Longrightarrow> list_all P (m_set k v m)"
  by (induction m) auto

lemma list_all_m_delete [simp]: "list_all P m \<Longrightarrow> list_all P (m_delete k m)"
  by (simp add: m_delete_def list_all_iff)

lemma m_get_list_all: "list_all P m \<Longrightarrow> m_get m k = Some v \<Longrightarrow> P (k, v)"
  by (auto simp: m_get_def list_all_iff dest: map_of_SomeD)

lemma well_formed_files [simp]:
  "well_formed (s\<lparr>files := f\<rparr>) = well_formed s"
  "well_formed (s\<lparr>collectionFiles := cf\<rparr>) = well_formed s"
  "well_formed (s\<lparr>cache := c\<rparr>) = well_formed s"
  "well_formed (s\<lparr>isInitialized := b\<rparr>) = well_formed s"
  by (simp_all add: well_formed_def)

lemma well_formed_set:
  assumes "well_formed s" and "distinct (m_keys data)"
  shows "well_formed (s\<lparr>collectionData := m_set name data (collectionData s)\<rparr>)"
  using assms by (simp add: well_formed_def)

lemma well_formed_writeFile [simp]: "well_formed (snd (writeFile p c s)) = well_formed s"
  by (simp add: writeFile_def)

lemma well_formed_unlink [simp]: "well_formed (snd (unlink p s)) = well_formed s"
  by (simp add: unlink_def)

lemma well_formed_saveCollectionIndex [simp]:
  "well_formed (snd (saveCollectionIndex s)) = well_formed s"
  by (simp add: saveCollectionIndex_def)

lemma well_formed_saveCollection [simp]:
  "well_formed (snd (saveCollection name s)) = well_formed s"
  by (simp add: saveCollection_def Let_def writeFile_def split: option.splits)

lemma well_formed_addToCache [simp]: "well_formed (addToCache k v s) = well_formed s"
  by (simp add: addToCache_def Let_def)

lemma read_data_map_distinct: "read_data_map p s = Inr data \<Longrightarrow> distinct (m_keys data)"
  by (auto simp: read_data_map_def split: sum.splits)

lemma well_formed_loadCollection:
  assumes "well_formed s"
  shows "well_formed (snd (loadCollection name s))"
  using assms
  by (auto simp: loadCollection_def Let_def well_formed_def
           dest: read_data_map_distinct split: sum.splits)

lemma get_or_load_data:
  assumes "well_formed s" and "get_or_load name s = (Inr data, s')"
  shows "well_formed s' \<and> distinct (m_keys data)"
proof (cases "m_get (collectionData s) name")
  case None
  with assms(2) have l: "loadCollection name s = (Inr data, s')" by (simp add: get_or_load_def)
  then have "s' = snd (loadCollection name s)" by simp
  then have "well_formed s'" using assms(1) by (simp add: well_formed_loadCollection)
  moreover from l have "distinct (m_keys data)"
    by (auto simp: loadCollection_def Let_def dest: read_data_map_distinct
             split: sum.splits if_splits)
  ultimately show ?thesis by simp
next
  case (Some d)
  with assms(2) have "s' = s" "data = d" by (simp_all add: get_or_load_def)
  moreover from assms(1) Some have "distinct (m_keys d)"
    using m_get_list_all [of "\<lambda>p. distinct (m_keys (snd p))" "collectionData s" name d]
    by (simp add: well_formed_def)
  ultimately show ?thesis using assms(1) by simp
qed

lemma well_formed_loadIndexed: "well_formed s \<Longrightarrow> well_formed (loadIndexed entry s)"
  by (auto simp: loadIndexed_def Let_def well_formed_def dest: read_data_map_distinct
           split: sum.splits)

lemma well_formed_scanFile: "well_formed s \<Longrightarrow> well_formed (scanFile file s)"
  by (auto simp: scanFile_def Let_def well_formed_def dest: read_data_map_distinct
           split: sum.splits)

lemma well_formed_fold:
  assumes "\<And>x t. well_formed t \<Longrightarrow> well_formed (f x t)"
  shows "well_formed s \<Longrightarrow> well_formed (fold f xs s)"
  by (induction xs arbitrary: s) (simp_all add: assms)

lemma well_formed_ensureInitialized:
  assumes "well_formed s"
  shows "well_formed (snd (ensureInitialized s))"
proof (cases "isInitialized s")
  case True
  with assms show ?thesis by (simp add: ensureInitialized_def)
next
  case False
  have a: "well_formed (snd (loadCollectionIndex s))"
    using assms
    by (auto simp: loadCollectionIndex_def well_formed_fold well_formed_loadIndexed
             split: sum.splits)
  have "well_formed (s'\<lparr>collectionFiles := [], collectionData := []\<rparr>)" for s' :: db
    by (simp add: well_formed_def)
  then have b: "well_formed (scanCollections s')" for s'
    by (simp add: scanCollections_def Let_def well_formed_fold well_formed_scanFile)
  obtain r s1 where l: "loadCollectionIndex s = (r, s1)" by (cases "loadCollectionIndex s")
  with a have a': "well_formed s1" by simp
  obtain r2 s2 where x: "saveCollectionIndex (scanCollections s1) = (r2, s2)"
    by (cases "saveCollectionIndex (scanCollections s1)")
  then have "s2 = snd (saveCollectionIndex (scanCollections s1))" by simp
  then have c: "well_formed s2" using b [of s1] by simp
  from False l x a' c show ?thesis
    by (cases r; cases r2) (simp_all add: ensureInitialized_def)
qed


lemma well_formed_get_or_load:
  assumes "well_formed s"
  shows "well_formed (snd (get_or_load name s))"
  using assms by (simp add: get_or_load_def well_formed_loadCollection split: option.splits)

text \<open>
  Every public operation that writes to the Maps takes a well-formed store to a
  well-formed store, whether it returns or throws.
\<close>

lemma well_formed_put:
  assumes "well_formed s" and "get_or_load name s = (Inr data, s1)"
  shows "well_formed (s1\<lparr>collectionData := m_set name (m_set k v data) (collectionData s1)\<rparr>)"
  using get_or_load_data [OF assms] by (simp add: well_formed_set)

lemma well_formed_insert:
  assumes "well_formed s"
  shows "well_formed (snd (Collection_insert name a document generated s))"
proof -
  obtain r0 s0 where i: "ensureInitialized s = (r0, s0)" by (cases "ensureInitialized s")
  then have "s0 = snd (ensureInitialized s)" by simp
  then have w0: "well_formed s0" using assms by (simp add: well_formed_ensureInitialized)
  obtain r1 s1 where g: "get_or_load name s0 = (r1, s1)" by (cases "get_or_load name s0")
  then have "s1 = snd (get_or_load name s0)" by simp
  then have w1: "well_formed s1" using w0 by (simp add: well_formed_get_or_load)
  show ?thesis
  proof (cases r0)
    case (Inl e)
    with i w0 show ?thesis by (simp add: Collection_insert_def)
  next
    case r0: (Inr u)
    show ?thesis
    proof (cases r1)
      case (Inl e)
      with i r0 g w1 show ?thesis by (simp add: Collection_insert_def Let_def)
    next
      case (Inr data)
      with g have g': "get_or_load name s0 = (Inr data, s1)" by simp
      note w2 = well_formed_put [OF w0 g']
      from i r0 g' w1 w2 show ?thesis
        by (auto simp: Collection_insert_def Let_def split: prod.splits sum.splits
                 dest!: arg_cong [where f = "\<lambda>x. well_formed (snd x)"])
    qed
  qed
qed

lemma well_formed_update:
  assumes "well_formed s"
  shows "well_formed (snd (Collection_update name i document s))"
proof -
  obtain r0 s0 where i: "ensureInitialized s = (r0, s0)" by (cases "ensureInitialized s")
  then have "s0 = snd (ensureInitialized s)" by simp
  then have w0: "well_formed s0" using assms by (simp add: well_formed_ensureInitialized)
  obtain r1 s1 where g: "get_or_load name s0 = (r1, s1)" by (cases "get_or_load name s0")
  then have "s1 = snd (get_or_load name s0)" by simp
  then have w1: "well_formed s1" using w0 by (simp add: well_formed_get_or_load)
  show ?thesis
  proof (cases r0)
    case (Inl e)
    with i w0 show ?thesis by (simp add: Collection_update_def)
  next
    case r0: (Inr u)
    show ?thesis
    proof (cases r1)
      case (Inl e)
      with i r0 g w1 show ?thesis by (simp add: Collection_update_def Let_def)
    next
      case (Inr data)
      with g have g': "get_or_load name s0 = (Inr data, s1)" by simp
      note w2 = well_formed_put [OF w0 g']
      from i r0 g' w1 w2 show ?thesis
        by (auto simp: Collection_update_def Let_def split: prod.splits sum.splits
                 dest!: arg_cong [where f = "\<lambda>x. well_formed (snd x)"])
    qed
  qed
qed

lemma well_formed_drop:
  "well_formed s \<Longrightarrow> well_formed (s\<lparr>collectionData := m_delete name (collectionData s)\<rparr>)"
  by (simp add: well_formed_def)

lemma well_formed_bind:
  assumes "well_formed (snd x)" and "\<And>u t. well_formed t \<Longrightarrow> well_formed (snd (f u t))"
  shows "well_formed (snd (case x of (Inl e, t) \<Rightarrow> (Inl e, t) | (Inr u, t) \<Rightarrow> f u t))"
  using assms by (cases x; cases "fst x") auto

lemma well_formed_delete:
  assumes "well_formed s"
  shows "well_formed (snd (Collection_delete name i s))"
  unfolding Collection_delete_def
proof (rule well_formed_bind)
  show "well_formed (snd (ensureInitialized s))"
    using assms by (rule well_formed_ensureInitialized)
next
  fix u s0
  assume w0: "well_formed s0"
  show "well_formed (snd (case m_get (collectionData s0) name of
             None \<Rightarrow> (Inr False, s0)
           | Some data \<Rightarrow>
               (if \<not> m_has data (js_String i) then (Inr False, s0)
                else
                  (let data' = m_delete (js_String i) data;
                       s1 = s0\<lparr>collectionData := m_set name data' (collectionData s0)\<rparr>;
                       s2 = s1\<lparr>cache := m_delete (name @ '':'' @ js_String i) (cache s1)\<rparr>
                   in case saveCollection name s2 of
                        (Inl e, s3) \<Rightarrow> (Inl e, s3)
                      | (Inr u, s3) \<Rightarrow>
                          (let s6 =
                             (if m_size data' = 0
                              then (let s4 = s3\<lparr>collectionData := m_delete name (collectionData s3)\<rparr>;
                                        s5 = (case m_get (collectionFiles s4) name of
                                                None \<Rightarrow> s4
                                              | Some filePath \<Rightarrow>
                                                  (if filePath \<noteq> [] then snd (unlink filePath s4) else s4))
                                    in s5\<lparr>collectionFiles := m_delete name (collectionFiles s5)\<rparr>)
                              else s3)
                           in case saveCollectionIndex s6 of
                                (Inl e, s7) \<Rightarrow> (Inl e, s7)
                              | (Inr u, s7) \<Rightarrow> (Inr True, s7))))))"
  proof (cases "m_get (collectionData s0) name")
    case None
    with w0 show ?thesis by simp
  next
    case (Some data)
    from w0 Some have "distinct (m_keys data)"
      using m_get_list_all [of "\<lambda>p. distinct (m_keys (snd p))" "collectionData s0" name data]
      by (simp add: well_formed_def)
    then have "distinct (m_keys (m_delete (js_String i) data))" by simp
    from well_formed_set [OF w0 this, of name]
    have w2: "well_formed (s0\<lparr>collectionData := m_set name (m_delete (js_String i) data) (collectionData s0)\<rparr>)" .
    show ?thesis
    proof (cases "m_has data (js_String i)")
      case False
      with Some w0 show ?thesis by simp
    next
      case True
      have "well_formed (snd (case saveCollection name
               (s0\<lparr>collectionData := m_set name (m_delete (js_String i) data) (collectionData s0),
                    cache := m_delete (name @ '':'' @ js_String i) (cache s0)\<rparr>) of
                        (Inl e, s3) \<Rightarrow> (Inl e, s3)
                      | (Inr u, s3) \<Rightarrow>
                          (let s6 =
                             (if m_size (m_delete (js_String i) data) = 0
                              then (let s4 = s3\<lparr>collectionData := m_delete name (collectionData s3)\<rparr>;
                                        s5 = (case m_get (collectionFiles s4) name of
                                                None \<Rightarrow> s4
                                              | Some filePath \<Rightarrow>
                                                  (if filePath \<noteq> [] then snd (unlink filePath s4) else s4))
                                    in s5\<lparr>collectionFiles := m_delete name (collectionFiles s5)\<rparr>)
                              else s3)
                           in case saveCollectionIndex s6 of
                                (Inl e, s7) \<Rightarrow> (Inl e, s7)
                              | (Inr u, s7) \<Rightarrow> (Inr True, s7))))"
      proof (rule well_formed_bind)
        show "well_formed (snd (saveCollection name
               (s0\<lparr>collectionData := m_set name (m_delete (js_String i) data) (collectionData s0),
                    cache := m_delete (name @ '':'' @ js_String i) (cache s0)\<rparr>)))"
          using w2 by simp
      next
        fix u s3
        assume w3: "well_formed s3"
        let ?s6 = "(if m_size (m_delete (js_String i) data) = 0
                              then (let s4 = s3\<lparr>collectionData := m_delete name (collectionData s3)\<rparr>;
                                        s5 = (case m_get (collectionFiles s4) name of
                                                None \<Rightarrow> s4
                                              | Some filePath \<Rightarrow>
                                                  (if filePath \<noteq> [] then snd (unlink filePath s4) else s4))
                                    in s5\<lparr>collectionFiles := m_delete name (collectionFiles s5)\<rparr>)
                              else s3)"
        have w6: "well_formed ?s6"
          using w3 well_formed_drop [OF w3, of name] by (simp add: Let_def split: option.splits)
        have "well_formed (snd (case saveCollectionIndex ?s6 of
                                (Inl e, s7) \<Rightarrow> (Inl e, s7)
                              | (Inr u, s7) \<Rightarrow> (Inr True, s7)))"
          by (rule well_formed_bind) (simp_all add: w6)
        then show "well_formed (snd (let s6 = ?s6
                           in case saveCollectionIndex s6 of
                                (Inl e, s7) \<Rightarrow> (Inl e, s7)
                              | (Inr u, s7) \<Rightarrow> (Inr True, s7)))"
          by (simp only: Let_def)
      qed
      with Some True show ?thesis by (simp add: Let_def)
    qed
  qed
qed

lemma well_formed_restore_collections:
  "well_formed s \<Longrightarrow> well_formed (snd (restore_collections cs s))"
proof (induction cs arbitrary: s)
  case Nil
  then show ?case by simp
next
  case (Cons c cs)
  obtain n doc where c: "c = (n, doc)" by (cases c)
  show ?case
  proof (cases "Object_entries doc")
    case (Inl e)
    with c Cons.prems show ?thesis by simp
  next
    case (Inr es)
    let ?s1 = "s\<lparr>collectionData := m_set n (create_all [] es) (collectionData s)\<rparr>"
    have w1: "well_formed ?s1" using Cons.prems by (simp add: well_formed_set)
    obtain r2 s2 where sv: "saveCollection n ?s1 = (r2, s2)" by (cases "saveCollection n ?s1")
    then have "s2 = snd (saveCollection n ?s1)" by simp
    then have w2: "well_formed s2" using w1 by simp
    from c Inr sv w2 Cons.IH [OF w2] show ?thesis
      by (cases r2) simp_all
  qed
qed

lemma well_formed_restore_data:
  "well_formed s \<Longrightarrow> well_formed (snd (restore_data backupData s))"
  by (auto simp: restore_data_def well_formed_restore_collections well_formed_set
           split: sum.splits)

lemma restore_returns:
  assumes "JSLiteDB_restore backupPath s = (Inr u, s3)"
  shows "\<exists>backupData s0 s2.
           restore_data backupData (s0\<lparr>collectionData := [], collectionFiles := [], cache := []\<rparr>)
             = (Inr (), s2)
           \<and> saveCollectionIndex s2 = (Inr (), s3)"
  using assms
  by (auto simp: JSLiteDB_restore_def rollback_def split: sum.splits prod.splits)

lemma well_formed_restore:
  assumes "well_formed s"
  shows "well_formed (snd (JSLiteDB_restore backupPath s))"
proof (cases "fst (JSLiteDB_restore backupPath s)")
  case (Inl e)
  then have "collectionData (snd (JSLiteDB_restore backupPath s)) = collectionData s"
    by (auto simp: JSLiteDB_restore_def rollback_def split: sum.splits prod.splits)
  with assms show ?thesis by (simp add: well_formed_def)
next
  case (Inr u)
  then have "JSLiteDB_restore backupPath s = (Inr u, snd (JSLiteDB_restore backupPath s))"
    by (simp add: prod_eq_iff)
  from restore_returns [OF this] obtain backupData s0 s2 where
    rd: "restore_data backupData (s0\<lparr>collectionData := [], collectionFiles := [], cache := []\<rparr>)
           = (Inr (), s2)"
    and sx: "saveCollectionIndex s2 = (Inr (), snd (JSLiteDB_restore backupPath s))"
    by blast
  have "well_formed (s0\<lparr>collectionData := [], collectionFiles := [], cache := []\<rparr>)"
    by (simp add: well_formed_def)
  from well_formed_restore_data [OF this, of backupData] rd have "well_formed s2" by simp
  moreover from sx have "snd (JSLiteDB_restore backupPath s) = snd (saveCollectionIndex s2)"
    by simp
  ultimately show ?thesis by simp
qed

lemma well_formed_clear:
  assumes "well_formed s"
  shows "well_formed (snd (JSLiteDB_clear s))"
proof -
  obtain r0 s0 where i: "ensureInitialized s = (r0, s0)" by (cases "ensureInitialized s")
  then have "s0 = snd (ensureInitialized s)" by simp
  then have w0: "well_formed s0" using assms by (simp add: well_formed_ensureInitialized)
  from i w0 show ?thesis
    by (cases r0) (simp_all add: JSLiteDB_clear_def Let_def well_formed_def)
qed

lemma well_formed_backup:
  assumes "well_formed s"
  shows "well_formed (snd (JSLiteDB_backup backupPath s))"
proof -
  obtain r0 s0 where i: "ensureInitialized s = (r0, s0)" by (cases "ensureInitialized s")
  then have "s0 = snd (ensureInitialized s)" by simp
  then have w0: "well_formed s0" using assms by (simp add: well_formed_ensureInitialized)
  from i w0 show ?thesis
    by (cases r0) (auto simp: JSLiteDB_backup_def Let_def writeFile_def)
qed

subsection \<open>Backup and restore\<close>

lemma m_set_fresh: "k \<notin> fst ` set m \<Longrightarrow> m_set k v m = m @ [(k, v)]"
  by (induction m) auto

lemma create_all_distinct:
  "distinct (map fst (acc @ kvs)) \<Longrightarrow> create_all acc kvs = acc @ kvs"
proof (induction kvs arbitrary: acc)
  case Nil
  show ?case by (simp add: create_all_def)
next
  case (Cons p kvs)
  from Cons.prems have fresh: "fst p \<notin> fst ` set acc" by auto
  from Cons.prems have "distinct (map fst ((acc @ [p]) @ kvs))" by simp
  from Cons.IH [OF this] fresh show ?case
    by (simp add: create_all_def m_set_fresh)
qed

lemma own_entries_distinct:
  assumes "distinct (map fst kvs)"
  shows "set (own_entries kvs) = set kvs" and "distinct (map fst (own_entries kvs))"
proof -
  from assms have c: "create_all [] kvs = kvs"
    using create_all_distinct [of "[]" kvs] by simp
  show "set (own_entries kvs) = set kvs"
    by (auto simp: own_entries_def c)
  from assms have d: "distinct kvs" and i: "inj_on fst (set kvs)"
    by (simp_all add: distinct_map)
  have "distinct (own_entries kvs)"
    using d by (auto simp: own_entries_def c)
  moreover have "inj_on fst (set (own_entries kvs))"
    using i \<open>set (own_entries kvs) = set kvs\<close> by simp
  ultimately show "distinct (map fst (own_entries kvs))"
    by (simp add: distinct_map)
qed

lemma map_of_own_entries:
  assumes "distinct (map fst kvs)"
  shows "map_of (own_entries kvs) = map_of kvs"
  using own_entries_distinct [OF assms] assms by (simp add: map_of_inject_set)

lemma data_map_of_backup:
  assumes "distinct (map fst d)"
  shows "map_of (data_map_of (Object_fromEntries d)) = map_of d"
proof -
  have 1: "distinct (map fst (own_entries d))" using assms by (rule own_entries_distinct)
  then have 2: "distinct (map fst (own_entries (own_entries d)))" by (rule own_entries_distinct)
  have "data_map_of (Object_fromEntries d) = own_entries (own_entries d)"
    using create_all_distinct [of "[]" "own_entries (own_entries d)"] 2
    by (simp add: data_map_of_def Object_fromEntries_def)
  then show ?thesis using 1 assms by (simp add: map_of_own_entries)
qed

lemma backup_collections_fold:
  assumes "distinct (map fst acc @ map fst cd)" and "''__proto__'' \<notin> fst ` set cd"
  shows "fold (\<lambda>p props. assign_prop (fst p) (f (snd p)) props) cd acc
           = acc @ map (\<lambda>p. (fst p, f (snd p))) cd"
  using assms
proof (induction cd arbitrary: acc)
  case Nil
  show ?case by simp
next
  case (Cons p cd)
  from Cons.prems have fresh: "fst p \<notin> fst ` set acc" and np: "fst p \<noteq> ''__proto__''" by auto
  from Cons.prems have "distinct (map fst (acc @ [(fst p, f (snd p))]) @ map fst cd)" by simp
  moreover from Cons.prems have "''__proto__'' \<notin> fst ` set cd" by simp
  ultimately show ?case
    using Cons.IH [of "acc @ [(fst p, f (snd p))]"] fresh np
    by (simp add: assign_prop_def m_set_fresh)
qed

lemma restore_collections_data:
  assumes "restore_collections cs s = (Inr u, s')"
  shows "collectionData s' = create_all (collectionData s) (map (\<lambda>p. (fst p, data_map_of (snd p))) cs)"
  using assms
proof (induction cs arbitrary: s)
  case Nil
  then show ?case by (simp add: create_all_def)
next
  case (Cons c cs)
  obtain n doc where c: "c = (n, doc)" by (cases c)
  from Cons.prems c obtain es where es: "Object_entries doc = Inr es"
    by (auto split: sum.splits)
  let ?s1 = "s\<lparr>collectionData := m_set n (create_all [] es) (collectionData s)\<rparr>"
  from Cons.prems c es obtain s2 where sv: "saveCollection n ?s1 = (Inr (), s2)"
    and rest: "restore_collections cs s2 = (Inr u, s')"
    by (auto simp: Let_def split: sum.splits prod.splits)
  have "s2 = snd (saveCollection n ?s1)" using sv by simp
  then have "collectionData s2 = m_set n (create_all [] es) (collectionData s)" by simp
  with Cons.IH [OF rest] c es show ?case
    by (simp add: create_all_def data_map_of_def)
qed

lemma unlink_files_sub:
  "m_get (files (snd (unlink p s))) q = Some c \<Longrightarrow> m_get (files s) q = Some c"
  by (cases "q = p") (auto simp: unlink_def split: if_splits)

lemma unlink_all_files_sub:
  "m_get (files (fold (\<lambda>filePath st. snd (unlink filePath st)) ps s)) q = Some c
     \<Longrightarrow> m_get (files s) q = Some c"
  by (induction ps arbitrary: s) (auto dest: unlink_files_sub)

lemma map_of_map_snd:
  "map_of (map (\<lambda>p. (fst p, f (snd p))) xs) k = map_option f (map_of xs k)"
  by (induction xs) auto


lemma backup_success:
  assumes "isInitialized s" and "distinct (m_keys (collectionData s))"
    and "''__proto__'' \<notin> set (m_keys (collectionData s))"
    and "JSLiteDB_backup backupPath s = (Inr (), s1)"
  shows "s1 = s\<lparr>files := m_set backupPath
                  (Json (JObj [(''version'', JNum 2), (''timestamp'', JNum (clock s)),
                               (''folderBased'', JBool True),
                               (''collections'',
                                JObj (own_entries
                                  (map (\<lambda>p. (fst p, Object_fromEntries (snd p))) (collectionData s))))]))
                  (files s)\<rparr>"
proof -
  have "fold (\<lambda>p props. assign_prop (fst p) (Object_fromEntries (snd p)) props) (collectionData s) []
          = map (\<lambda>p. (fst p, Object_fromEntries (snd p))) (collectionData s)"
    using backup_collections_fold [of "[]" "collectionData s" Object_fromEntries] assms(2,3)
    by (simp add: m_keys_def)
  with assms(1,4) show ?thesis
    by (auto simp: JSLiteDB_backup_def ensureInitialized_def Let_def writeFile_def
             split: if_splits)
qed

lemma unlink_all_keeps [simp]:
  "isInitialized (fold (\<lambda>filePath st. snd (unlink filePath st)) ps st) = isInitialized st"
  "folderPath (fold (\<lambda>filePath st. snd (unlink filePath st)) ps st) = folderPath st"
  by (induction ps arbitrary: st) simp_all

lemma clear_success:
  assumes "isInitialized s1" and "JSLiteDB_clear s1 = (r, s2)"
  shows "isInitialized s2 \<and> collectionData s2 = [] \<and> collectionFiles s2 = [] \<and> cache s2 = []
         \<and> (\<forall>q c. m_get (files s2) q = Some c \<longrightarrow> m_get (files s1) q = Some c)"
proof -
  define u where "u = fold (\<lambda>filePath st. snd (unlink filePath st)) (map snd (collectionFiles s1)) s1"
  define w where "w = snd (unlink (indexFilePath u) u)"
  from assms have s2: "s2 = w\<lparr>collectionData := [], collectionFiles := [], cache := []\<rparr>"
    by (simp add: JSLiteDB_clear_def ensureInitialized_def Let_def u_def w_def)
  have iw: "isInitialized w" using assms(1) by (simp add: w_def u_def)
  have sub: "m_get (files s2) q = Some c \<longrightarrow> m_get (files s1) q = Some c" for q c
  proof
    assume "m_get (files s2) q = Some c"
    then have "m_get (files w) q = Some c" by (simp add: s2)
    then have "m_get (files u) q = Some c" unfolding w_def by (rule unlink_files_sub)
    then show "m_get (files s1) q = Some c" unfolding u_def by (rule unlink_all_files_sub)
  qed
  from iw sub show ?thesis by (simp add: s2)
qed

lemma restore_success:
  assumes "isInitialized s2"
    and "m_get (files s2) backupPath
           = Some (Json (JObj [(''version'', v), (''timestamp'', t), (''folderBased'', JBool True),
                               (''collections'', JObj cs)]))"
    and "JSLiteDB_restore backupPath s2 = (Inr (), s3)"
  shows "collectionData s3
           = create_all [] (map (\<lambda>p. (fst p, data_map_of (snd p))) (own_entries cs))"
proof -
  let ?s = "s2\<lparr>collectionData := [], collectionFiles := [], cache := []\<rparr>"
  let ?B = "JObj [(''version'', v), (''timestamp'', t), (''folderBased'', JBool True),
                               (''collections'', JObj cs)]"
  from assms(2,3) have rd: "readFile backupPath s2 = Inr (Json ?B)"
    by (auto simp: JSLiteDB_restore_def readFile_def rollback_def split: if_splits)
  have rdata: "restore_data ?B ?s = restore_collections (own_entries cs) ?s"
    by (simp add: restore_data_def is_truthy_def create_all_def)
  from assms(1,3) rd rdata obtain s4 where
    rc: "restore_collections (own_entries cs) ?s = (Inr (), s4)"
    and sx: "saveCollectionIndex s4 = (Inr (), s3)"
    by (auto simp: JSLiteDB_restore_def ensureInitialized_def JSON_parse_def rollback_def
             split: sum.splits prod.splits)
  have "s3 = snd (saveCollectionIndex s4)" using sx by simp
  then have "collectionData s3 = collectionData s4" by simp
  with restore_collections_data [OF rc] show ?thesis by simp
qed

text \<open>
  The three calls do succeed when no access is refused and the backup path is
  neither a collection file nor the manifest, which \<^verbatim>\<open>clear\<close> would unlink.
\<close>

lemma unlink_files_other:
  "q \<noteq> p \<Longrightarrow> m_get (files (snd (unlink q s))) p = m_get (files s) p"
  by (simp add: unlink_def)

lemma unlink_all_files_other:
  "p \<notin> set ps \<Longrightarrow>
     m_get (files (fold (\<lambda>filePath st. snd (unlink filePath st)) ps s)) p = m_get (files s) p"
  by (induction ps arbitrary: s) (auto simp: unlink_files_other)

lemma unlink_all_denied [simp]:
  "denied (fold (\<lambda>filePath st. snd (unlink filePath st)) ps st) = denied st"
  by (induction ps arbitrary: st) simp_all

lemma saveCollection_succeeds:
  assumes "denied s = []"
  shows "\<exists>s'. saveCollection n s = (Inr (), s') \<and> denied s' = []"
  using assms
  by (auto simp: saveCollection_def writeFile_def Let_def split: option.splits)

lemma restore_collections_succeeds:
  assumes "denied s = []" and "list_all (\<lambda>p. \<exists>kvs. snd p = JObj kvs) cs"
  shows "\<exists>s'. restore_collections cs s = (Inr (), s') \<and> denied s' = []"
  using assms
proof (induction cs arbitrary: s)
  case Nil
  then show ?case by simp
next
  case (Cons c cs)
  obtain n doc where c: "c = (n, doc)" by (cases c)
  with Cons.prems obtain kvs where doc: "doc = JObj kvs" by auto
  let ?s1 = "s\<lparr>collectionData := m_set n (create_all [] (own_entries kvs)) (collectionData s)\<rparr>"
  from Cons.prems have "denied ?s1 = []" by simp
  from saveCollection_succeeds [OF this] obtain s2
    where sv: "saveCollection n ?s1 = (Inr (), s2)" and d2: "denied s2 = []" by blast
  from Cons.prems have "list_all (\<lambda>p. \<exists>kvs. snd p = JObj kvs) cs" by simp
  from Cons.IH [OF d2 this] obtain s' where "restore_collections cs s2 = (Inr (), s')" "denied s' = []"
    by blast
  with c doc sv show ?case by simp
qed

lemma backup_clear_restore_succeeds:
  assumes "isInitialized s" and "well_formed s"
    and "''__proto__'' \<notin> set (m_keys (collectionData s))"
    and "denied s = []"
    and "backupPath \<notin> set (map snd (collectionFiles s))"
    and "backupPath \<noteq> indexFilePath s"
  shows "\<exists>s1 s2 s3. JSLiteDB_backup backupPath s = (Inr (), s1)
           \<and> JSLiteDB_clear s1 = (Inr True, s2)
           \<and> JSLiteDB_restore backupPath s2 = (Inr (), s3)"
proof -
  let ?C = "map (\<lambda>p. (fst p, Object_fromEntries (snd p))) (collectionData s)"
  let ?B = "JObj [(''version'', JNum 2), (''timestamp'', JNum (clock s)),
                  (''folderBased'', JBool True), (''collections'', JObj (own_entries ?C))]"
  from assms(2) have dk: "distinct (map fst (collectionData s))"
    by (simp add: well_formed_def m_keys_def)
  obtain r1 s1 where b0: "JSLiteDB_backup backupPath s = (r1, s1)" by (cases "JSLiteDB_backup backupPath s")
  with assms(1,4) have r1: "r1 = Inr ()"
    by (auto simp: JSLiteDB_backup_def ensureInitialized_def writeFile_def Let_def)
  with b0 have b: "JSLiteDB_backup backupPath s = (Inr (), s1)" by simp
  have s1: "s1 = s\<lparr>files := m_set backupPath (Json ?B) (files s)\<rparr>"
    using backup_success [OF assms(1) _ assms(3) b] dk by (simp add: m_keys_def)
  have i1: "isInitialized s1" using assms(1) by (simp add: s1)
  define u where "u = fold (\<lambda>filePath st. snd (unlink filePath st)) (map snd (collectionFiles s1)) s1"
  define s2 where "s2 = (snd (unlink (indexFilePath u) u))\<lparr>collectionData := [], collectionFiles := [], cache := []\<rparr>"
  have c: "JSLiteDB_clear s1 = (Inr True, s2)"
    using i1 by (simp add: JSLiteDB_clear_def ensureInitialized_def Let_def u_def s2_def)
  have ix: "indexFilePath u = indexFilePath s" by (simp add: indexFilePath_def u_def s1)
  have "m_get (files u) backupPath = m_get (files s1) backupPath"
    unfolding u_def using assms(5) by (intro unlink_all_files_other) (simp add: s1)
  then have f2: "m_get (files s2) backupPath = Some (Json ?B)"
    using assms(6) by (simp add: s2_def ix unlink_files_other s1)
  have d2: "denied s2 = []" using assms(4) by (simp add: s2_def u_def s1)
  have i2: "isInitialized s2" using i1 by (simp add: s2_def u_def)
  have rd: "readFile backupPath s2 = Inr (Json ?B)"
    by (simp add: readFile_def d2 f2)
  let ?s = "s2\<lparr>collectionData := [], collectionFiles := [], cache := []\<rparr>"
  have rdata: "restore_data ?B ?s = restore_collections (own_entries (own_entries ?C)) ?s"
    by (simp add: restore_data_def is_truthy_def create_all_def)
  have dC: "distinct (map fst ?C)" using dk by (simp add: comp_def)
  then have d1: "distinct (map fst (own_entries ?C))" by (rule own_entries_distinct)
  have "set (own_entries (own_entries ?C)) = set ?C"
    using own_entries_distinct(1) [OF d1] own_entries_distinct(1) [OF dC] by simp
  then have objs: "list_all (\<lambda>p. \<exists>kvs. snd p = JObj kvs) (own_entries (own_entries ?C))"
    by (auto simp: list_all_iff Object_fromEntries_def)
  have "denied ?s = []" using d2 by simp
  from restore_collections_succeeds [OF this objs] obtain s4
    where rc: "restore_collections (own_entries (own_entries ?C)) ?s = (Inr (), s4)"
      and d4: "denied s4 = []" by blast
  obtain s3 where sx: "saveCollectionIndex s4 = (Inr (), s3)"
    using d4 by (simp add: saveCollectionIndex_def writeFile_def)
  have "JSLiteDB_restore backupPath s2 = (Inr (), s3)"
    using i2 rd rdata rc sx
    by (simp add: JSLiteDB_restore_def JSON_parse_def ensureInitialized_def)
  with b c show ?thesis by blast
qed

text \<open>
  The round trip of the collections that the backup does contain. Take an
  initialized, well-formed store in which no collection is named \<^verbatim>\<open>__proto__\<close>.
  When \<^verbatim>\<open>backup\<close> to a path, then \<^verbatim>\<open>clear\<close>, then \<^verbatim>\<open>restore\<close> from the same
  path have succeeded, every collection name is bound as before the backup: a
  name that had no collection has none, and a name that had one has a collection
  with the same mapping from identifiers to bodies.
\<close>

lemma backup_clear_restore:
  assumes "isInitialized s" and "well_formed s"
    and "''__proto__'' \<notin> set (m_keys (collectionData s))"
    and "JSLiteDB_backup backupPath s = (Inr (), s1)"
    and "JSLiteDB_clear s1 = (Inr True, s2)"
    and "JSLiteDB_restore backupPath s2 = (Inr (), s3)"
  shows "map_option map_of (m_get (collectionData s3) name)
           = map_option map_of (m_get (collectionData s) name)"
proof -
  let ?cd = "collectionData s"
  let ?C = "map (\<lambda>p. (fst p, Object_fromEntries (snd p))) ?cd"
  let ?B = "JObj [(''version'', JNum 2), (''timestamp'', JNum (clock s)),
                  (''folderBased'', JBool True), (''collections'', JObj (own_entries ?C))]"
  from assms(2) have dk: "distinct (map fst ?cd)"
    and inner: "\<And>n d. (n, d) \<in> set ?cd \<Longrightarrow> distinct (map fst d)"
    by (auto simp: well_formed_def m_keys_def list_all_iff)
  have s1: "s1 = s\<lparr>files := m_set backupPath (Json ?B) (files s)\<rparr>"
    using backup_success [OF assms(1) _ assms(3,4)] dk by (simp add: m_keys_def)
  then have i1: "isInitialized s1" using assms(1) by simp
  from clear_success [OF i1 assms(5)] have i2: "isInitialized s2"
    and sub: "\<And>q c. m_get (files s2) q = Some c \<Longrightarrow> m_get (files s1) q = Some c"
    by blast+
  from assms(6) obtain c where "m_get (files s2) backupPath = Some c"
    by (auto simp: JSLiteDB_restore_def readFile_def rollback_def split: if_splits option.splits)
  with sub [of backupPath c] have f2: "m_get (files s2) backupPath = Some (Json ?B)"
    by (simp add: s1)
  have dC: "distinct (map fst ?C)" using dk by (simp add: comp_def)
  then have d1: "distinct (map fst (own_entries ?C))" by (rule own_entries_distinct)
  then have d2: "distinct (map fst (own_entries (own_entries ?C)))" by (rule own_entries_distinct)
  let ?R = "map (\<lambda>p. (fst p, data_map_of (snd p))) (own_entries (own_entries ?C))"
  have "distinct (map fst ([] @ ?R))" using d2 by (simp add: comp_def)
  then have "create_all [] ?R = ?R" using create_all_distinct [of "[]" ?R] by simp
  with restore_success [OF i2 f2 assms(6)] have cd3: "collectionData s3 = ?R" by simp
  have "m_get (collectionData s3) name
          = map_option data_map_of (map_of (own_entries (own_entries ?C)) name)"
    by (simp add: cd3 m_get_def map_of_map_snd)
  also have "\<dots> = map_option data_map_of (map_of ?C name)"
    using d1 dC by (simp add: map_of_own_entries)
  also have "\<dots> = map_option (\<lambda>d. data_map_of (Object_fromEntries d)) (map_of ?cd name)"
    by (simp add: map_of_map_snd option.map_comp comp_def)
  finally have "map_option map_of (m_get (collectionData s3) name)
          = map_option (\<lambda>d. map_of (data_map_of (Object_fromEntries d))) (map_of ?cd name)"
    by (simp add: option.map_comp comp_def)
  also have "\<dots> = map_option map_of (map_of ?cd name)"
  proof (cases "map_of ?cd name")
    case None
    then show ?thesis by simp
  next
    case (Some d)
    then have "(name, d) \<in> set ?cd" by (rule map_of_SomeD)
    then have "distinct (map fst d)" by (rule inner)
    with Some show ?thesis by (simp add: data_map_of_backup)
  qed
  finally show ?thesis by (simp add: m_get_def)
qed

lemma backup_clear_restore_example:
  "isInitialized store_two \<and> well_formed store_two
   \<and> ''__proto__'' \<notin> set (m_keys (collectionData store_two))
   \<and> JSLiteDB_backup ''/backup.json'' store_two = (Inr (), two_backed_up)
   \<and> JSLiteDB_clear two_backed_up = (Inr True, two_cleared)
   \<and> collectionData two_cleared = []
   \<and> JSLiteDB_restore ''/backup.json'' two_cleared = (Inr (), two_restored)
   \<and> map_option map_of (m_get (collectionData two_restored) ''users'')
       = map_option map_of (m_get (collectionData store_two) ''users'')
   \<and> m_get (collectionData two_restored) ''users''
       = Some [(''2'', JObj [(''n'', JNum 3)]), (''10'', JObj [(''n'', JNum 2)]),
               (''b'', JObj [(''n'', JNum 1)])]"
proof -
  have a: "isInitialized store_two" by (simp add: store_two_def)
  have b: "well_formed store_two" by code_simp
  have c: "''__proto__'' \<notin> set (m_keys (collectionData store_two))" by code_simp
  have d0: "fst (JSLiteDB_backup ''/backup.json'' store_two) = Inr ()" by code_simp
  have e0: "fst (JSLiteDB_clear two_backed_up) = Inr True" by code_simp
  have f0: "fst (JSLiteDB_restore ''/backup.json'' two_cleared) = Inr ()" by code_simp
  have d: "JSLiteDB_backup ''/backup.json'' store_two = (Inr (), two_backed_up)"
    using d0 by (simp add: prod_eq_iff two_backed_up_def)
  have e: "JSLiteDB_clear two_backed_up = (Inr True, two_cleared)"
    using e0 by (simp add: prod_eq_iff two_cleared_def)
  have f: "JSLiteDB_restore ''/backup.json'' two_cleared = (Inr (), two_restored)"
    using f0 by (simp add: prod_eq_iff two_restored_def)
  have g: "collectionData two_cleared = []" by code_simp
  have h: "m_get (collectionData two_restored) ''users''
       = Some [(''2'', JObj [(''n'', JNum 3)]), (''10'', JObj [(''n'', JNum 2)]),
               (''b'', JObj [(''n'', JNum 1)])]"
    by code_simp
  note t = backup_clear_restore [OF a b c d e f, of "''users''"]
  show ?thesis
    by (intro conjI) (rule a, rule b, rule c, rule d, rule e, rule g, rule f, rule t, rule h)
qed

text \<open>
  Claim C5. Backup, clear and restore are to give back every collection with its
  mapping from identifiers to bodies. The code misses the collection named
  \<^verbatim>\<open>__proto__\<close>: the loop of \<^verbatim>\<open>backup\<close> stores it by plain assignment, which
  sets the prototype of the object collecting the collections and adds no
  property to it. In the store that one insert into such a collection leaves, the
  three calls succeed, the backup file holds the other collection only, and the
  collection that held a document before the backup is absent after the restore.
\<close>

theorem backup_loses_proto_collection:
  "isInitialized store_proto \<and> well_formed store_proto
   \<and> fst (JSLiteDB_backup ''/backup.json'' store_proto) = Inr ()
   \<and> fst (JSLiteDB_clear proto_backed_up) = Inr True
   \<and> fst (JSLiteDB_restore ''/backup.json'' proto_cleared) = Inr ()
   \<and> m_get (collectionData store_proto) ''__proto__'' = Some [(''a'', JObj [(''n'', JNum 1)])]
   \<and> m_get (collectionData proto_restored) ''__proto__'' = None
   \<and> m_get (files proto_backed_up) ''/backup.json''
       = Some (Json (JObj [(''version'', JNum 2), (''timestamp'', JNum 0),
                           (''folderBased'', JBool True),
                           (''collections'',
                            JObj [(''users'', JObj [(''7'', JObj [(''name'', JStr ''Ann'')])])])]))"
  by code_simp

subsection \<open>The shape of the documents returned\<close>

lemma truthy_attach [simp]: "truthy (attach e)"
  by (simp add: attach_def with_id_def)

lemma insert_result:
  assumes "Collection_insert name a document generated s = (Inr r, s')"
  shows "r = (case document of None \<Rightarrow> with_id (JStr generated) a | Some d \<Rightarrow> with_id a d)"
  using assms
  by (auto simp: Collection_insert_def Let_def split: prod.splits sum.splits if_splits option.splits)

lemma update_result:
  assumes "Collection_update name i document s = (Inr r, s')"
  shows "r = document"
  using assms
  by (auto simp: Collection_update_def Let_def split: prod.splits sum.splits)

lemma stream_initialized:
  assumes "isInitialized s" and "m_get (collectionData s) name = Some es"
  shows "Collection_stream name s = (Inr (map attach es), s)"
  using assms by (simp add: Collection_stream_def ensureInitialized_def attach_def)

lemma findOne_initialized:
  assumes "isInitialized s" and "m_get (collectionData s) name = Some es"
  shows "Collection_findOne name flt s
           = (Inr (case filter (\<lambda>p. passes flt (snd p) (fst p)) es of
                     [] \<Rightarrow> JNull | e # rest \<Rightarrow> attach e), s)"
  using assms
  by (simp add: Collection_findOne_def find_initialized limited_def matching_def
           split: list.splits)

lemma findById_stored:
  assumes "isInitialized s" and "m_get (cache s) (name @ '':'' @ js_String i) = None"
    and "m_get (collectionData s) name = Some es" and "m_get es (js_String i) = Some document"
    and "truthy document"
  shows "Collection_findById name i s
           = (Inr document, addToCache (name @ '':'' @ js_String i) document s)"
  using assms by (simp add: Collection_findById_def ensureInitialized_def)

text \<open>
  The properties of the object \<^verbatim>\<open>{ id, ...doc }\<close>: creating properties one after
  the other, the last value given to a key is the one it has.
\<close>

lemma map_of_m_set: "map_of (m_set k v m) = (map_of m)(k \<mapsto> v)"
  by (induction m) (auto simp: fun_eq_iff)

lemma map_of_create_all: "map_of (create_all acc kvs) = map_of acc ++ map_of (rev kvs)"
proof (induction kvs arbitrary: acc)
  case Nil
  show ?case by (simp add: create_all_def)
next
  case (Cons p kvs)
  have "create_all acc (p # kvs) = create_all (m_set (fst p) (snd p) acc) kvs"
    by (simp add: create_all_def)
  then have "map_of (create_all acc (p # kvs))
               = map_of (m_set (fst p) (snd p) acc) ++ map_of (rev kvs)"
    by (simp only: Cons.IH)
  also have "\<dots> = (map_of acc)(fst p \<mapsto> snd p) ++ map_of (rev kvs)"
    by (simp only: map_of_m_set)
  also have "\<dots> = map_of acc ++ map_of (rev (p # kvs))"
    by (cases p) (auto simp: fun_eq_iff map_add_def split: option.splits)
  finally show ?case .
qed

lemma own_entries_of_created: "own_entries kvs = own_entries (create_all [] kvs)"
proof -
  have "distinct (map fst ([] @ create_all [] kvs))"
    using distinct_create_all_empty [of kvs] by (simp add: m_keys_def)
  then have "create_all [] (create_all [] kvs) = create_all [] kvs"
    using create_all_distinct [of "[]" "create_all [] kvs"] by simp
  then show ?thesis by (simp add: own_entries_def)
qed

lemma own_entries_keys_distinct: "distinct (map fst (own_entries kvs))"
proof -
  have "distinct (map fst (create_all [] kvs))"
    using distinct_create_all_empty [of kvs] by (simp add: m_keys_def)
  then have "distinct (map fst (own_entries (create_all [] kvs)))"
    by (rule own_entries_distinct)
  then show ?thesis using own_entries_of_created [of kvs] by simp
qed

lemma map_of_own_entries_created: "map_of (own_entries kvs) = map_of (create_all [] kvs)"
proof -
  have "distinct (map fst (create_all [] kvs))"
    using distinct_create_all_empty [of kvs] by (simp add: m_keys_def)
  then have "map_of (own_entries (create_all [] kvs)) = map_of (create_all [] kvs)"
    by (rule map_of_own_entries)
  then show ?thesis using own_entries_of_created [of kvs] by simp
qed

lemma get_prop_with_id:
  "get_prop (with_id i doc) k
     = Inr (case own_prop doc k of
              Some v \<Rightarrow> Some v
            | None \<Rightarrow> if k = ''id'' then Some i else None)"
proof -
  let ?X = "(''id'', i) # spread doc"
  have "distinct (map fst ([] @ own_entries ?X))"
    using own_entries_keys_distinct [of ?X] by simp
  then have "create_all [] (own_entries ?X) = own_entries ?X"
    using create_all_distinct [of "[]" "own_entries ?X"] by simp
  then have "get_prop (with_id i doc) k = Inr (map_of (create_all [] ?X) k)"
    by (simp add: with_id_def map_of_own_entries_created)
  also have "map_of (create_all [] ?X) k
               = (case map_of (rev (spread doc)) k of
                    Some v \<Rightarrow> Some v
                  | None \<Rightarrow> if k = ''id'' then Some i else None)"
    by (simp add: map_of_create_all map_add_def split: option.splits)
  also have "map_of (rev (spread doc)) k = own_prop doc k"
    by (simp add: own_prop_def map_of_create_all)
  finally show ?thesis .
qed

lemma with_id_carries_id:
  assumes "own_prop doc ''id'' = None"
  shows "get_prop (with_id i doc) ''id'' = Inr (Some i)"
    and "k \<noteq> ''id'' \<Longrightarrow> get_prop (with_id i doc) k = Inr (own_prop doc k)"
  using assms by (simp_all add: get_prop_with_id split: option.splits)




end
